theory Spec2Isabelle
  imports Complex_Main "HOL-Library.Word" "HOL-Library.Sublist"
begin

section \<open>JavaScript strings\<close>

text \<open>
  A JavaScript string is a sequence of UTF-16 code units. A code unit is a 16-bit word;
  \<open>js\<close> turns an ASCII literal of the source into such a sequence.
\<close>

type_synonym jschar = "16 word"
type_synonym jsstring = "jschar list"

definition js :: "string \<Rightarrow> jsstring" where
  "js s = map of_char s"

text \<open>
  The code units that ECMAScript calls WhiteSpace or LineTerminator: TAB, LF, VT, FF, CR,
  SP, NBSP, U+1680, U+2000..U+200A, LS, PS, U+202F, U+205F, U+3000 and U+FEFF. Both
  \<^verbatim>\<open>String.prototype.trim\<close> and the class \<^verbatim>\<open>\s\<close> use this set.
\<close>

definition isWhiteSpace :: "jschar \<Rightarrow> bool" where
  "isWhiteSpace x \<longleftrightarrow>
     x = 9 \<or> x = 10 \<or> x = 11 \<or> x = 12 \<or> x = 13 \<or> x = 32 \<or> x = 160 \<or> x = 5760 \<or>
     (8192 \<le> x \<and> x \<le> 8202) \<or> x = 8232 \<or> x = 8233 \<or> x = 8239 \<or> x = 8287 \<or>
     x = 12288 \<or> x = 65279"

definition isDigit :: "jschar \<Rightarrow> bool" where
  "isDigit x \<longleftrightarrow> 48 \<le> x \<and> x \<le> 57"

text \<open>\<^verbatim>\<open>s.trim()\<close>: white space is removed from both ends.\<close>

definition trim :: "jsstring \<Rightarrow> jsstring" where
  "trim s = rev (dropWhile isWhiteSpace (rev (dropWhile isWhiteSpace s)))"

section \<open>Numbers\<close>

text \<open>
  A Number is a binary64 value: not a number, an infinity, the negative zero, or a finite
  value, given here by the rational it stands for (\<open>Finite 0\<close> is the positive zero).
\<close>

datatype number = NaN | Infinity | NegInfinity | NegZero | Finite rat

fun negate :: "number \<Rightarrow> number" where
  "negate NaN = NaN"
| "negate Infinity = NegInfinity"
| "negate NegInfinity = Infinity"
| "negate NegZero = Finite 0"
| "negate (Finite q) = (if q = 0 then NegZero else Finite (- q))"

text \<open>The number of binary digits of a natural number.\<close>

fun bit_length :: "nat \<Rightarrow> nat" where
  "bit_length n = (if n = 0 then 0 else Suc (bit_length (n div 2)))"

declare bit_length.simps [simp del]

definition pow2 :: "int \<Rightarrow> rat" where
  "pow2 k = (if 0 \<le> k then 2 ^ nat k else 1 / 2 ^ nat (- k))"

text \<open>The fraction \<open>a / (b * 2 ^ k)\<close>, and for \<open>0 < a\<close> the \<open>e\<close> with \<open>2 ^ e \<le> a / b < 2 ^ (e + 1)\<close>.\<close>

definition shifted :: "nat \<Rightarrow> nat \<Rightarrow> int \<Rightarrow> nat \<times> nat" where
  "shifted a b k = (if 0 \<le> k then (a, b * 2 ^ nat k) else (a * 2 ^ nat (- k), b))"

definition floor_log2 :: "nat \<Rightarrow> nat \<Rightarrow> int" where
  "floor_log2 a b =
     (let d = int (bit_length a) - int (bit_length b)
      in if snd (shifted a b d) \<le> fst (shifted a b d) then d else d - 1)"

text \<open>\<open>a / b\<close> rounded to the nearest integer, and to the even one of two nearest.\<close>

definition round_half_even :: "nat \<Rightarrow> nat \<Rightarrow> nat" where
  "round_half_even a b =
     (let f = a div b; r = a mod b
      in if 2 * r < b then f else if b < 2 * r then Suc f else if even f then f else Suc f)"

text \<open>
  The Number value for the fraction \<open>a / b\<close> with \<open>0 < b\<close>: the binary64 value nearest to
  it, the one with an even significand of two nearest. A value has 53 significant bits
  and an exponent from -1022 on, so that the values near \<open>2 ^ e\<close> are the multiples of
  \<open>2 ^ (e - 52)\<close> and the smallest ones the multiples of \<open>2 ^ - 1074\<close>; what rounds to
  \<open>2 ^ 1024\<close> or lies above is the infinity.
\<close>

definition binary64 :: "nat \<Rightarrow> nat \<Rightarrow> number" where
  "binary64 a b =
     (if a = 0 then Finite 0
      else
        (let e = max (floor_log2 a b) (- 1022);
             n = round_half_even (fst (shifted a b (e - 52))) (snd (shifted a b (e - 52)))
         in if 1024 \<le> e \<or> (e = 1023 \<and> n = 2 ^ 53) then Infinity
            else Finite (of_nat n * pow2 (e - 52))))"

definition digits_value :: "jsstring \<Rightarrow> nat" where
  "digits_value ds = foldl (\<lambda>acc d. 10 * acc + (unat d - 48)) 0 ds"

text \<open>
  \<^verbatim>\<open>parseFloat\<close>: leading white space is dropped and the longest prefix of the rest that
  is a decimal literal is taken: a sign or none, then \<^verbatim>\<open>Infinity\<close>, or digits with or
  without a dot and more digits (or a dot and digits), with or without an exponent. The
  result is \<^verbatim>\<open>NaN\<close> when there is no such prefix and otherwise the Number value of the
  literal (engines round it correctly, whatever the number of its digits).
\<close>

definition exponent_part :: "jsstring \<Rightarrow> int" where
  "exponent_part s =
     (case s of
        [] \<Rightarrow> 0
      | c # t \<Rightarrow>
          if c = of_char CHR ''e'' \<or> c = of_char CHR ''E'' then
            (case t of
               [] \<Rightarrow> 0
             | g # u \<Rightarrow>
                 if g = of_char CHR ''-''
                 then (if takeWhile isDigit u = [] then 0 else - int (digits_value (takeWhile isDigit u)))
                 else if g = of_char CHR ''+''
                 then (if takeWhile isDigit u = [] then 0 else int (digits_value (takeWhile isDigit u)))
                 else int (digits_value (takeWhile isDigit t)))
          else 0)"

definition unsigned_literal :: "jsstring \<Rightarrow> number" where
  "unsigned_literal u =
     (if take 8 u = js ''Infinity'' then Infinity
      else
        (let ip = takeWhile isDigit u;
             r1 = dropWhile isDigit u;
             dot = (case r1 of [] \<Rightarrow> False | c # t \<Rightarrow> c = of_char CHR ''.'');
             fp = (if dot then takeWhile isDigit (tl r1) else []);
             r2 = (if dot then dropWhile isDigit (tl r1) else r1);
             k = exponent_part r2 - int (length fp)
         in if ip = [] \<and> fp = [] then NaN
            else if 0 \<le> k then binary64 (digits_value (ip @ fp) * 10 ^ nat k) 1
            else binary64 (digits_value (ip @ fp)) (10 ^ nat (- k))))"

definition parseFloat :: "jsstring \<Rightarrow> number" where
  "parseFloat s =
     (case dropWhile isWhiteSpace s of
        [] \<Rightarrow> NaN
      | c # t \<Rightarrow>
          if c = of_char CHR ''-'' then negate (unsigned_literal t)
          else if c = of_char CHR ''+'' then unsigned_literal t
          else unsigned_literal (c # t))"

section \<open>JavaScript values\<close>

text \<open>
  Values that arrive as parsed JSON or sit in the caches. Numbers of such payloads are
  modelled by integers; an object is its list of properties, looked up by key.
  \<open>None\<close> stands for \<^verbatim>\<open>undefined\<close> wherever a value may be missing.
\<close>

datatype jsvalue =
    JNull
  | JBool bool
  | JNum int
  | JStr jsstring
  | JArr "jsvalue list"
  | JObj "(jsstring \<times> jsvalue) list"

datatype js_error = TypeError

text \<open>Truthiness, as tested by \<^verbatim>\<open>if (v)\<close>, \<^verbatim>\<open>!v\<close>, \<^verbatim>\<open>a && b\<close> and \<^verbatim>\<open>a || b\<close>.\<close>

fun truthy :: "jsvalue \<Rightarrow> bool" where
  "truthy JNull = False"
| "truthy (JBool b) = b"
| "truthy (JNum n) = (n \<noteq> 0)"
| "truthy (JStr s) = (s \<noteq> [])"
| "truthy (JArr xs) = True"
| "truthy (JObj kvs) = True"

definition truthy_opt :: "jsvalue option \<Rightarrow> bool" where
  "truthy_opt v = (case v of None \<Rightarrow> False | Some w \<Rightarrow> truthy w)"

definition truthy_str :: "jsstring option \<Rightarrow> bool" where
  "truthy_str v = (case v of None \<Rightarrow> False | Some s \<Rightarrow> s \<noteq> [])"

text \<open>
  \<^verbatim>\<open>v.key\<close> for the property names the source reads (none of them exists on a
  string, number, boolean or array): reading a property of \<^verbatim>\<open>null\<close> throws, an
  absent property is \<^verbatim>\<open>undefined\<close>.
\<close>

fun get_prop :: "jsvalue \<Rightarrow> jsstring \<Rightarrow> js_error + jsvalue option" where
  "get_prop JNull k = Inl TypeError"
| "get_prop (JObj kvs) k = Inr (map_of kvs k)"
| "get_prop v k = Inr None"

definition isArray :: "jsvalue option \<Rightarrow> bool" where
  "isArray v = (case v of Some (JArr xs) \<Rightarrow> True | _ \<Rightarrow> False)"

section \<open>Regular expressions\<close>

text \<open>
  The patterns of \<^verbatim>\<open>AnalysisDisplay.tsx\<close> use literal characters, the classes
  \<^verbatim>\<open>\s\<close>, \<^verbatim>\<open>\d\<close>, \<^verbatim>\<open>[:\s]\<close>, \<^verbatim>\<open>[\s\S]\<close>, \<^verbatim>\<open>[^\n]\<close>, alternation, the
  quantifiers \<^verbatim>\<open>*\<close>, \<^verbatim>\<open>*?\<close>, \<^verbatim>\<open>+\<close>, \<^verbatim>\<open>?\<close>, capturing and non-capturing groups, a
  positive lookahead and \<^verbatim>\<open>$\<close>. Every pattern carries the flag \<^verbatim>\<open>i\<close> and no other
  flag. The matcher below is the backtracking matcher of ECMAScript for this fragment:
  a matcher takes a state (the rest of the input and the captures) and a continuation,
  and the alternatives are tried in the order of the language definition.
\<close>

datatype clsitem = CWs | CNonWs | CDigit | CChar char

datatype regex =
    Lit char
  | Class "clsitem list"
  | NClass "clsitem list"
  | Eps
  | Seq regex regex
  | Alt regex regex
  | Star regex
  | LazyStar regex
  | Plus regex
  | Opt regex
  | Group nat regex
  | Lookahead regex
  | Eos

text \<open>
  Under the flag \<^verbatim>\<open>i\<close> two code units match when they canonicalize to the same code
  unit. All pattern characters of the source are ASCII, and ECMAScript never
  canonicalizes a code unit above 127 to one below 128, so upper-casing the letters
  \<^verbatim>\<open>a\<close>..\<^verbatim>\<open>z\<close> is all that matters here.
\<close>

definition Canonicalize :: "jschar \<Rightarrow> jschar" where
  "Canonicalize x = (if 97 \<le> x \<and> x \<le> 122 then x - 32 else x)"

fun cls_mem :: "clsitem \<Rightarrow> jschar \<Rightarrow> bool" where
  "cls_mem CWs x = isWhiteSpace x"
| "cls_mem CNonWs x = (\<not> isWhiteSpace x)"
| "cls_mem CDigit x = isDigit x"
| "cls_mem (CChar c) x = (Canonicalize x = Canonicalize (of_char c))"

definition in_class :: "clsitem list \<Rightarrow> jschar \<Rightarrow> bool" where
  "in_class A x = list_ex (\<lambda>i. cls_mem i x) A"

type_synonym caps = "nat \<Rightarrow> jsstring option"
type_synonym mstate = "jsstring \<times> caps"
type_synonym cont = "mstate \<Rightarrow> mstate option"
type_synonym matcher = "mstate \<Rightarrow> cont \<Rightarrow> mstate option"

definition char_matcher :: "(jschar \<Rightarrow> bool) \<Rightarrow> matcher" where
  "char_matcher P x k =
     (case fst x of [] \<Rightarrow> None | a # s \<Rightarrow> if P a then k (s, snd x) else None)"

text \<open>
  RepeatMatcher with minimum 0 and no maximum. An iteration that consumes nothing is
  rejected, so every iteration shortens the input and the length of the input bounds
  the number of iterations: the counter starts at that length.
\<close>

fun repeat_greedy :: "matcher \<Rightarrow> nat \<Rightarrow> matcher" where
  "repeat_greedy mr 0 x k = k x"
| "repeat_greedy mr (Suc n) x k =
     (case mr x (\<lambda>y. if length (fst y) < length (fst x) then repeat_greedy mr n y k else None) of
        Some z \<Rightarrow> Some z
      | None \<Rightarrow> k x)"

fun repeat_lazy :: "matcher \<Rightarrow> nat \<Rightarrow> matcher" where
  "repeat_lazy mr 0 x k = k x"
| "repeat_lazy mr (Suc n) x k =
     (case k x of
        Some z \<Rightarrow> Some z
      | None \<Rightarrow>
          mr x (\<lambda>y. if length (fst y) < length (fst x) then repeat_lazy mr n y k else None))"

primrec m :: "regex \<Rightarrow> matcher" where
  "m (Lit c) x k = char_matcher (cls_mem (CChar c)) x k"
| "m (Class A) x k = char_matcher (in_class A) x k"
| "m (NClass A) x k = char_matcher (\<lambda>a. \<not> in_class A a) x k"
| "m Eps x k = k x"
| "m (Seq r1 r2) x k = m r1 x (\<lambda>y. m r2 y k)"
| "m (Alt r1 r2) x k = (case m r1 x k of Some z \<Rightarrow> Some z | None \<Rightarrow> m r2 x k)"
| "m (Star r) x k = repeat_greedy (m r) (length (fst x)) x k"
| "m (LazyStar r) x k = repeat_lazy (m r) (length (fst x)) x k"
| "m (Plus r) x k = m r x (\<lambda>y. repeat_greedy (m r) (length (fst y)) y k)"
| "m (Opt r) x k =
     (case m r x (\<lambda>y. if length (fst y) < length (fst x) then k y else None) of
        Some z \<Rightarrow> Some z
      | None \<Rightarrow> k x)"
| "m (Group n r) x k =
     m r x (\<lambda>y. k (fst y, (snd y)(n \<mapsto> take (length (fst x) - length (fst y)) (fst x))))"
| "m (Lookahead r) x k =
     (case m r x Some of None \<Rightarrow> None | Some y \<Rightarrow> k (fst x, snd y))"
| "m Eos x k = (if fst x = [] then k x else None)"

text \<open>A run of literal pattern characters.\<close>

definition lit :: "string \<Rightarrow> regex" where
  "lit s = foldr (\<lambda>c r. Seq (Lit c) r) s Eps"

text \<open>
  \<^verbatim>\<open>text.match(pattern)\<close> for a pattern without the flag \<^verbatim>\<open>g\<close>: the start positions are
  tried from left to right, the first success is the result. \<open>matched\<close> is element 0 of
  the result array, \<open>group\<close> gives the captures.
\<close>

record match_result =
  matched :: jsstring
  group :: caps

fun String_match :: "jsstring \<Rightarrow> regex \<Rightarrow> match_result option" where
  "String_match [] r =
     (case m r ([], Map.empty) Some of
        Some y \<Rightarrow> Some \<lparr>matched = [], group = snd y\<rparr>
      | None \<Rightarrow> None)"
| "String_match (a # s) r =
     (case m r (a # s, Map.empty) Some of
        Some y \<Rightarrow>
          Some \<lparr>matched = take (length (a # s) - length (fst y)) (a # s), group = snd y\<rparr>
      | None \<Rightarrow> String_match s r)"

section \<open>The configuration module\<close>

text \<open>
  What the code reads from its surroundings: whether \<^verbatim>\<open>window\<close> exists and the
  environment variable \<^verbatim>\<open>NEXT_PUBLIC_API_URL\<close>.
\<close>

record Env =
  has_window :: bool
  NEXT_PUBLIC_API_URL :: "jsstring option"

definition getBaseUrl :: "'a Env_scheme \<Rightarrow> jsstring" where
  "getBaseUrl env =
     (if has_window env then
        (case NEXT_PUBLIC_API_URL env of
           Some envUrl \<Rightarrow> if envUrl \<noteq> [] then envUrl else []
         | None \<Rightarrow> [])
      else
        (case NEXT_PUBLIC_API_URL env of
           Some envUrl \<Rightarrow> if envUrl \<noteq> [] then envUrl else js ''http://127.0.0.1:8000''
         | None \<Rightarrow> js ''http://127.0.0.1:8000''))"

datatype endpoint = SEARCH | ANALYZE | PRODUCT | OCR | BARCODE

fun ENDPOINTS :: "endpoint \<Rightarrow> jsstring" where
  "ENDPOINTS SEARCH = js ''/api/v1/search''"
| "ENDPOINTS ANALYZE = js ''/api/v1/analyze/product''"
| "ENDPOINTS PRODUCT = js ''/api/v1/product''"
| "ENDPOINTS OCR = js ''/api/v1/ocr''"
| "ENDPOINTS BARCODE = js ''/api/v1/barcode''"

definition getApiUrl :: "'a Env_scheme \<Rightarrow> endpoint \<Rightarrow> jsstring option \<Rightarrow> jsstring" where
  "getApiUrl env endpoint path =
     (let baseEndpoint = ENDPOINTS endpoint;
          baseUrl = getBaseUrl env
      in case path of
           Some p \<Rightarrow> if p \<noteq> [] then baseUrl @ baseEndpoint @ js ''/'' @ p
                     else baseUrl @ baseEndpoint
         | None \<Rightarrow> baseUrl @ baseEndpoint)"

section \<open>The analysis display\<close>

record HealthRating =
  score :: number
  verdict :: jsstring

text \<open>
  The interface \<^verbatim>\<open>Section\<close> and the entries of \<^verbatim>\<open>sectionPatterns\<close> share the title, the
  icon (the name of the icon component) and the colour.
\<close>

record SectionStyle =
  title :: jsstring
  icon :: "string option"
  color :: "string option"

record Section = SectionStyle +
  content :: jsstring

record SectionPattern = SectionStyle +
  pattern :: regex

text \<open>\<^verbatim>\<open>/(?:Health\s+)?Rating[:\s]+(\d+(?:\.\d+)?)\s*\/\s*10/i\<close>\<close>

definition ratingPattern :: regex where
  "ratingPattern =
     Seq (Opt (Seq (lit ''Health'') (Plus (Class [CWs]))))
    (Seq (lit ''Rating'')
    (Seq (Plus (Class [CChar CHR '':'', CWs]))
    (Seq (Group 1 (Seq (Plus (Class [CDigit])) (Opt (Seq (Lit CHR ''.'') (Plus (Class [CDigit]))))))
    (Seq (Star (Class [CWs]))
    (Seq (Lit CHR ''/'')
    (Seq (Star (Class [CWs]))
         (lit ''10'')))))))"

text \<open>\<^verbatim>\<open>/OVERALL VERDICT:?\s*([^\n]+)/i\<close>\<close>

definition verdictPattern :: regex where
  "verdictPattern =
     Seq (lit ''OVERALL VERDICT'')
    (Seq (Opt (Lit CHR '':''))
    (Seq (Star (Class [CWs]))
         (Group 1 (Plus (NClass [CChar (CHR 0x0A)])))))"

text \<open>
  The argument is a string (the guard for other types at the head of the function is
  the identity on strings). \<^verbatim>\<open>verdictMatch[1].trim()\<close> throws when the capture is
  \<^verbatim>\<open>undefined\<close>.
\<close>

definition extractHealthRating :: "jsstring \<Rightarrow> js_error + HealthRating option" where
  "extractHealthRating text =
     (case String_match text ratingPattern of
        Some ratingMatch \<Rightarrow>
          (let score = (case group ratingMatch 1 of Some g \<Rightarrow> parseFloat g | None \<Rightarrow> NaN)
           in case String_match text verdictPattern of
                Some verdictMatch \<Rightarrow>
                  (case group verdictMatch 1 of
                     Some g \<Rightarrow> Inr (Some \<lparr>score = score, verdict = trim g\<rparr>)
                   | None \<Rightarrow> Inl TypeError)
              | None \<Rightarrow> Inr (Some \<lparr>score = score, verdict = []\<rparr>))
      | None \<Rightarrow> Inr None)"

text \<open>
  \<^verbatim>\<open>(?:SUMMARY|KEY RISKS|POSITIVE HIGHLIGHTS|RECOMMENDATION|MARKETING TRAPS|OVERALL VERDICT)\<close>
  and the lookahead \<^verbatim>\<open>(?=\n\s*\<close>nextHeader\<^verbatim>\<open>|$)\<close> that ends every section.
\<close>

definition nextHeader :: regex where
  "nextHeader =
     Alt (lit ''SUMMARY'')
    (Alt (lit ''KEY RISKS'')
    (Alt (lit ''POSITIVE HIGHLIGHTS'')
    (Alt (lit ''RECOMMENDATION'')
    (Alt (lit ''MARKETING TRAPS'')
         (lit ''OVERALL VERDICT'')))))"

definition lookahead :: regex where
  "lookahead =
     Lookahead (Alt (Seq (Lit (CHR 0x0A)) (Seq (Star (Class [CWs])) nextHeader)) Eos)"

text \<open>\<^verbatim>\<open>new RegExp(`HEADER:?\\s*([\\s\\S]*?)${lookahead}`, 'i')\<close>\<close>

definition section_regex :: "string \<Rightarrow> regex" where
  "section_regex header =
     Seq (lit header)
    (Seq (Opt (Lit CHR '':''))
    (Seq (Star (Class [CWs]))
    (Seq (Group 1 (LazyStar (Class [CWs, CNonWs])))
         lookahead)))"

definition sectionPatterns :: "SectionPattern list" where
  "sectionPatterns =
     [\<lparr>title = js ''Summary'', icon = Some ''Award'', color = Some ''purple'',
       pattern = section_regex ''SUMMARY''\<rparr>,
      \<lparr>title = js ''Key Risks'', icon = Some ''AlertTriangle'', color = Some ''red'',
       pattern = section_regex ''KEY RISKS''\<rparr>,
      \<lparr>title = js ''Positive Highlights'', icon = Some ''CheckCircle'', color = Some ''green'',
       pattern = section_regex ''POSITIVE HIGHLIGHTS''\<rparr>,
      \<lparr>title = js ''Recommendation'', icon = Some ''Lightbulb'', color = Some ''yellow'',
       pattern = section_regex ''RECOMMENDATION''\<rparr>,
      \<lparr>title = js ''Marketing Traps'', icon = Some ''Target'', color = Some ''orange'',
       pattern = section_regex ''MARKETING TRAPS''\<rparr>]"

text \<open>
  The body of the \<^verbatim>\<open>forEach\<close>: what one pattern pushes onto \<^verbatim>\<open>sections\<close>, if anything.
\<close>

definition section_of :: "jsstring \<Rightarrow> SectionPattern \<Rightarrow> Section option" where
  "section_of text p =
     (case String_match text (pattern p) of
        None \<Rightarrow> None
      | Some mt \<Rightarrow>
          (case group mt 1 of
             None \<Rightarrow> None
           | Some g \<Rightarrow>
               if g = [] then None
               else (let content = trim g
                     in if content = [] then None
                        else Some \<lparr>title = title p, icon = icon p, color = color p,
                                   content = content\<rparr>)))"

text \<open>The patterns are visited in their order and the pushes append to the result.\<close>

definition parseAnalysisText :: "jsstring \<Rightarrow> Section list" where
  "parseAnalysisText text =
     foldl (\<lambda>sections p. case section_of text p of None \<Rightarrow> sections | Some s \<Rightarrow> sections @ [s])
       [] sectionPatterns"

section \<open>The network, the caches and the page states\<close>

datatype http_method = GET | POST

record request =
  url :: jsstring
  http_method :: http_method

text \<open>
  A response carries its status; \<^verbatim>\<open>res.ok\<close> holds for the statuses 200 to 299.
  \<open>json\<close> is the outcome of \<^verbatim>\<open>res.json()\<close>: the parsed body, or the message of the error
  it rejects with when the body is not JSON.
\<close>

record response =
  status :: nat
  json :: "jsstring + jsvalue"

definition ok :: "response \<Rightarrow> bool" where
  "ok res \<longleftrightarrow> 200 \<le> status res \<and> status res \<le> 299"

text \<open>
  What a \<^verbatim>\<open>fetch\<close> comes to: it rejects with an error (of which the code reads the
  message), it resolves with a response, or it has not settled.
\<close>

datatype fetch_outcome = Rejected jsstring | Responded response | Pending

text \<open>
  The platform around the code: the environment of the configuration module, the
  network, \<^verbatim>\<open>encodeURIComponent\<close> (\<open>None\<close> when it throws) and the message that the
  engine gives to the \<^verbatim>\<open>TypeError\<close> of a property read on \<^verbatim>\<open>null\<close>.
\<close>

record Runtime = Env +
  fetch :: "request \<Rightarrow> fetch_outcome"
  encodeURIComponent :: "jsstring \<Rightarrow> jsstring option"
  TypeError_message :: jsstring

text \<open>
  The two in-memory caches: the object \<^verbatim>\<open>window.__FD_CACHE__\<close> (absent until first
  written) and the cache of the result context.
\<close>

record Session =
  FD_CACHE :: "(jsstring \<rightharpoonup> jsvalue) option"
  cache :: "jsstring \<rightharpoonup> jsvalue"

text \<open>
  Modelled from the spec: \<^verbatim>\<open>setCacheEntry\<close> belongs to the result context of
  \<^verbatim>\<open>components/AppProviders\<close>, which is not among the sources; the spec calls the
  context "an in-memory keyed cache of previous lookups", so an entry is stored under
  its key.
\<close>

definition setCacheEntry :: "jsstring \<Rightarrow> jsvalue \<Rightarrow> Session \<Rightarrow> Session" where
  "setCacheEntry k v ss = ss\<lparr>cache := (cache ss)(k \<mapsto> v)\<rparr>"

text \<open>
  \<^verbatim>\<open>window.__FD_CACHE__ = { ...(window.__FD_CACHE__ || {}), [id]: v }\<close>
\<close>

definition set_FD_CACHE :: "jsstring \<Rightarrow> jsvalue \<Rightarrow> Session \<Rightarrow> Session" where
  "set_FD_CACHE k v ss =
     ss\<lparr>FD_CACHE := Some ((case FD_CACHE ss of None \<Rightarrow> Map.empty | Some c \<Rightarrow> c)(k \<mapsto> v))\<rparr>"

text \<open>\<^verbatim>\<open>c && c[id]\<close> as a condition: the entry, when there is one and it is truthy.\<close>

definition truthy_entry :: "(jsstring \<rightharpoonup> jsvalue) \<Rightarrow> jsstring \<Rightarrow> jsvalue option" where
  "truthy_entry c k = (case c k of Some v \<Rightarrow> if truthy v then Some v else None | None \<Rightarrow> None)"

text \<open>
  What a handler or an effect leaves behind: the component state, the caches, the
  requests it issued in their order, and whether it ran to its end (it does not when
  it awaits a \<^verbatim>\<open>fetch\<close> that never settles).
\<close>

record 's outcome =
  state :: 's
  session :: Session
  requests :: "request list"
  settled :: bool

record Loading =
  loading :: bool

record FetchStatus = Loading +
  error :: "jsstring option"

text \<open>
  The route parameter \<^verbatim>\<open>params.id\<close> is a string, an array of strings or
  \<^verbatim>\<open>undefined\<close>. The pages leave when it is falsy and take the first element of an
  array; where the identifier is used as a key or inside a template literal an
  \<^verbatim>\<open>undefined\<close> one reads \<^verbatim>\<open>undefined\<close>.
\<close>

datatype route_param = NoParam | Single jsstring | Multi "jsstring list"

fun param_truthy :: "route_param \<Rightarrow> bool" where
  "param_truthy NoParam = False"
| "param_truthy (Single s) = (s \<noteq> [])"
| "param_truthy (Multi xs) = True"

fun param_id :: "route_param \<Rightarrow> jsstring option" where
  "param_id NoParam = None"
| "param_id (Single s) = Some s"
| "param_id (Multi []) = None"
| "param_id (Multi (x # xs)) = Some x"

definition id_text :: "jsstring option \<Rightarrow> jsstring" where
  "id_text i = (case i of None \<Rightarrow> js ''undefined'' | Some s \<Rightarrow> s)"

text \<open>\<^verbatim>\<open>String(v)\<close>\<close>

fun digit_chars :: "nat \<Rightarrow> jsstring" where
  "digit_chars n =
     (if n < 10 then [of_nat (48 + n)] else digit_chars (n div 10) @ [of_nat (48 + n mod 10)])"

declare digit_chars.simps [simp del]

definition Number_toString :: "int \<Rightarrow> jsstring" where
  "Number_toString i =
     (if i < 0 then js ''-'' @ digit_chars (nat (- i)) else digit_chars (nat i))"

fun join :: "jsstring \<Rightarrow> jsstring list \<Rightarrow> jsstring" where
  "join sep [] = []"
| "join sep [x] = x"
| "join sep (x # y # ys) = x @ sep @ join sep (y # ys)"

fun ToString :: "jsvalue \<Rightarrow> jsstring" where
  "ToString JNull = js ''null''"
| "ToString (JBool b) = (if b then js ''true'' else js ''false'')"
| "ToString (JNum i) = Number_toString i"
| "ToString (JStr s) = s"
| "ToString (JArr xs) = join (js '','') (map (\<lambda>v. if v = JNull then [] else ToString v) xs)"
| "ToString (JObj kvs) = js ''[object Object]''"

section \<open>The home page\<close>

text \<open>The interfaces \<^verbatim>\<open>Product\<close> and \<^verbatim>\<open>AnalysisResponse\<close> as they are declared.\<close>

record ProductName =
  product_name :: jsstring

record Product = ProductName +
  brand :: jsstring
  id' :: jsstring
  image_url :: jsstring

record AnalysisResponse = ProductName +
  analysis_sections :: "jsstring list"

text \<open>A \<^verbatim>\<open>Product\<close> as the object it is at run time.\<close>

definition Product_value :: "Product \<Rightarrow> jsvalue" where
  "Product_value p =
     JObj [(js ''product_name'', JStr (product_name p)), (js ''brand'', JStr (brand p)),
           (js ''id'', JStr (id' p)), (js ''image_url'', JStr (image_url p))]"

datatype search_type = text_search | barcode_search

text \<open>
  The state of the component \<^verbatim>\<open>Home\<close>. \<^verbatim>\<open>searchResults\<close> is declared as an array of
  products; at run time it holds whatever the response body supplied.
\<close>

record HomeState = Loading +
  searchQuery :: jsstring
  searchResults :: jsvalue
  hasSearched :: bool
  barcodeOpen :: bool
  lastSearchType :: search_type
  scrollY :: int

text \<open>\<^verbatim>\<open>a || b\<close> where \<^verbatim>\<open>a\<close> may be \<^verbatim>\<open>undefined\<close>.\<close>

definition or_else :: "jsvalue option \<Rightarrow> jsvalue \<Rightarrow> jsvalue" where
  "or_else a b = (case a of Some v \<Rightarrow> if truthy v then v else b | None \<Rightarrow> b)"

text \<open>The \<^verbatim>\<open>catch\<close> and \<^verbatim>\<open>finally\<close> blocks that both handlers share.\<close>

definition search_failed :: "HomeState \<Rightarrow> HomeState" where
  "search_failed st = st\<lparr>searchResults := JArr [], loading := False\<rparr>"

definition handleSearch :: "Runtime \<Rightarrow> jsstring \<Rightarrow> Session \<Rightarrow> HomeState \<Rightarrow> HomeState outcome" where
  "handleSearch rt query ss st =
     (if trim query = [] then \<lparr>state = st, session = ss, requests = [], settled = True\<rparr>
      else
        (let st1 = st\<lparr>loading := True, hasSearched := True, lastSearchType := text_search\<rparr>
         in case encodeURIComponent rt query of
              None \<Rightarrow>
                \<lparr>state = search_failed st1, session = ss, requests = [], settled = True\<rparr>
            | Some q \<Rightarrow>
                (let req = \<lparr>url = getApiUrl rt SEARCH None @ js ''?q='' @ q, http_method = GET\<rparr>
                 in case fetch rt req of
                      Pending \<Rightarrow>
                        \<lparr>state = st1, session = ss, requests = [req], settled = False\<rparr>
                    | Rejected msg \<Rightarrow>
                        \<lparr>state = search_failed st1, session = ss, requests = [req],
                         settled = True\<rparr>
                    | Responded res \<Rightarrow>
                        if ok res then
                          (case json res of
                             Inl msg \<Rightarrow>
                               \<lparr>state = search_failed st1, session = ss, requests = [req],
                                settled = True\<rparr>
                           | Inr data \<Rightarrow>
                               (case get_prop data (js ''products'') of
                                  Inl e \<Rightarrow>
                                    \<lparr>state = search_failed st1, session = ss, requests = [req],
                                     settled = True\<rparr>
                                | Inr products \<Rightarrow>
                                    \<lparr>state = st1\<lparr>searchResults := or_else products (JArr []),
                                                 loading := False\<rparr>,
                                     session = setCacheEntry (js ''lastSearchResults'')
                                                 (or_else products (JArr [])) ss,
                                     requests = [req], settled = True\<rparr>))
                        else
                          \<lparr>state = search_failed st1, session = ss, requests = [req],
                           settled = True\<rparr>)))"

text \<open>
  In \<^verbatim>\<open>handleBarcodeSearch\<close> the request races against a timer of 13 seconds: a request
  that has not settled by then loses, and the handler goes on with the error of the
  timer.
\<close>

definition handleBarcodeSearch ::
    "Runtime \<Rightarrow> jsstring \<Rightarrow> Session \<Rightarrow> HomeState \<Rightarrow> HomeState outcome" where
  "handleBarcodeSearch rt barcode ss st =
     (let st1 = st\<lparr>loading := True, hasSearched := True, searchResults := JArr [],
                   lastSearchType := barcode_search, searchQuery := barcode\<rparr>;
          req = \<lparr>url = getApiUrl rt BARCODE None @ js ''/'' @ barcode, http_method = GET\<rparr>;
          failed = \<lparr>state = search_failed st1, session = ss, requests = [req], settled = True\<rparr>
      in case fetch rt req of
           Pending \<Rightarrow> failed
         | Rejected msg \<Rightarrow> failed
         | Responded res \<Rightarrow>
             if ok res then
               (case json res of
                  Inl msg \<Rightarrow> failed
                | Inr data \<Rightarrow>
                    (case get_prop data (js ''product_name'') of
                       Inl e \<Rightarrow> failed
                     | Inr None \<Rightarrow> failed
                     | Inr (Some name) \<Rightarrow>
                         (case get_prop data (js ''id'') of
                            Inl e \<Rightarrow> failed
                          | Inr None \<Rightarrow> failed
                          | Inr (Some ident) \<Rightarrow>
                              if truthy name \<and> truthy ident then
                                (case (get_prop data (js ''brand''), get_prop data (js ''image_url'')) of
                                   (Inr b, Inr img) \<Rightarrow>
                                     \<lparr>state = st1\<lparr>searchResults :=
                                         JArr [JObj [(js ''product_name'', name),
                                                     (js ''brand'', or_else b (JStr (js ''Unknown Brand''))),
                                                     (js ''id'', ident),
                                                     (js ''image_url'', or_else img (JStr []))]],
                                         loading := False\<rparr>,
                                      session = ss, requests = [req], settled = True\<rparr>
                                 | _ \<Rightarrow> failed)
                              else failed)))
             else failed)"

section \<open>The analysis page\<close>

record AnalysisState = FetchStatus +
  analysisText :: "jsstring option"
  analysisSections :: "jsvalue list"

text \<open>
  What \<^verbatim>\<open>tryUseCache\<close> does with a cached entry; the source has this block twice, once
  for each cache.
\<close>

definition use_cached :: "jsvalue \<Rightarrow> AnalysisState \<Rightarrow> AnalysisState" where
  "use_cached cached st =
     (case cached of
        JArr xs \<Rightarrow> st\<lparr>analysisSections := xs, loading := False\<rparr>
      | JStr t \<Rightarrow> st\<lparr>analysisText := Some t, loading := False\<rparr>
      | _ \<Rightarrow>
          (case get_prop cached (js ''analysis_sections'') of
             Inr (Some (JArr xs)) \<Rightarrow> st\<lparr>analysisSections := xs, loading := False\<rparr>
           | _ \<Rightarrow> st\<lparr>analysisText := Some (ToString cached), loading := False\<rparr>))"

definition tryUseCache :: "jsstring \<Rightarrow> Session \<Rightarrow> AnalysisState \<Rightarrow> AnalysisState \<times> bool" where
  "tryUseCache ident ss st =
     (case (case FD_CACHE ss of None \<Rightarrow> None | Some c \<Rightarrow> truthy_entry c ident) of
        Some cached \<Rightarrow> (use_cached cached st, True)
      | None \<Rightarrow>
          (case truthy_entry (cache ss) ident of
             Some cached \<Rightarrow> (use_cached cached st, True)
           | None \<Rightarrow> (st, False)))"

text \<open>The \<^verbatim>\<open>catch\<close> and \<^verbatim>\<open>finally\<close> handlers of the promise chain of a page.\<close>

definition fetch_failed :: "jsstring \<Rightarrow> bool \<Rightarrow> 'a FetchStatus_scheme \<Rightarrow> 'a FetchStatus_scheme" where
  "fetch_failed message mounted st =
     (let st1 = st\<lparr>error := Some message\<rparr>
      in if mounted then st1\<lparr>loading := False\<rparr> else st1)"

text \<open>
  The effect of \<^verbatim>\<open>AnalysisPage\<close>, run for the route parameter; \<open>mounted\<close> tells whether
  the component is still mounted when the request settles.
\<close>

definition AnalysisPage_effect ::
    "Runtime \<Rightarrow> route_param \<Rightarrow> bool \<Rightarrow> Session \<Rightarrow> AnalysisState \<Rightarrow> AnalysisState outcome" where
  "AnalysisPage_effect rt params_id mounted ss st =
     (if \<not> param_truthy params_id then
        \<lparr>state = st, session = ss, requests = [], settled = True\<rparr>
      else
        (let ident = id_text (param_id params_id)
         in case tryUseCache ident ss st of
              (st', True) \<Rightarrow> \<lparr>state = st', session = ss, requests = [], settled = True\<rparr>
            | (st', False) \<Rightarrow>
                (let req = \<lparr>url = getApiUrl rt ANALYZE (Some ident), http_method = POST\<rparr>
                 in case fetch rt req of
                      Pending \<Rightarrow>
                        \<lparr>state = st', session = ss, requests = [req], settled = False\<rparr>
                    | Rejected msg \<Rightarrow>
                        \<lparr>state = fetch_failed msg mounted st', session = ss, requests = [req],
                         settled = True\<rparr>
                    | Responded res \<Rightarrow>
                        if \<not> ok res then
                          \<lparr>state = fetch_failed (js ''Failed to fetch analysis'') mounted st',
                           session = ss, requests = [req], settled = True\<rparr>
                        else
                          (case json res of
                             Inl msg \<Rightarrow>
                               \<lparr>state = fetch_failed msg mounted st', session = ss,
                                requests = [req], settled = True\<rparr>
                           | Inr data \<Rightarrow>
                               if \<not> mounted then
                                 \<lparr>state = st', session = ss, requests = [req], settled = True\<rparr>
                               else
                                 (case get_prop data (js ''analysis_sections'') of
                                    Inl e \<Rightarrow>
                                      \<lparr>state = fetch_failed (TypeError_message rt) mounted st',
                                       session = ss, requests = [req], settled = True\<rparr>
                                  | Inr (Some (JArr xs)) \<Rightarrow>
                                      \<lparr>state = st'\<lparr>analysisSections := xs, loading := False\<rparr>,
                                       session = set_FD_CACHE ident (JArr xs)
                                                   (setCacheEntry ident (JArr xs) ss),
                                       requests = [req], settled = True\<rparr>
                                  | Inr other \<Rightarrow>
                                      (case data of
                                         JStr t \<Rightarrow>
                                           \<lparr>state = st'\<lparr>analysisText := Some t, loading := False\<rparr>,
                                            session = set_FD_CACHE ident data
                                                        (setCacheEntry ident data ss),
                                            requests = [req], settled = True\<rparr>
                                       | _ \<Rightarrow>
                                           \<lparr>state = st'\<lparr>loading := False\<rparr>, session = ss,
                                            requests = [req], settled = True\<rparr>))))))"



section \<open>The ingredients page\<close>

record IngredientsState = FetchStatus +
  data :: jsvalue

text \<open>\<^verbatim>\<open>/^\d+$/.test(id)\<close>\<close>

definition all_digits :: "jsstring \<Rightarrow> bool" where
  "all_digits s \<longleftrightarrow> s \<noteq> [] \<and> list_all isDigit s"

text \<open>\<^verbatim>\<open>EXTERNAL_APIS.OPEN_FOOD_FACTS.PRODUCT(barcode)\<close>\<close>

definition OPEN_FOOD_FACTS_PRODUCT :: "jsstring \<Rightarrow> jsstring" where
  "OPEN_FOOD_FACTS_PRODUCT barcode =
     js ''https://world.openfoodfacts.org/api/v0'' @ js ''/product/'' @ barcode @ js ''.json''"

text \<open>
  \<^verbatim>\<open>v?.key\<close> on a value that may be \<^verbatim>\<open>undefined\<close>: of \<^verbatim>\<open>null\<close> and of \<^verbatim>\<open>undefined\<close> nothing
  is read.
\<close>

definition opt_prop :: "jsvalue option \<Rightarrow> jsstring \<Rightarrow> jsvalue option" where
  "opt_prop v k =
     (case v of
        None \<Rightarrow> None
      | Some w \<Rightarrow> (case get_prop w k of Inl e \<Rightarrow> None | Inr p \<Rightarrow> p))"

text \<open>\<^verbatim>\<open>of?.product?.image_front_url || of?.product?.image_small_url\<close>\<close>

definition front_image :: "jsvalue \<Rightarrow> jsvalue option" where
  "front_image answer =
     (let product = opt_prop (Some answer) (js ''product'');
          img = opt_prop product (js ''image_front_url'')
      in if truthy_opt img then img else opt_prop product (js ''image_small_url''))"

text \<open>
  \<^verbatim>\<open>{ ...v, [k]: w }\<close>: the spread copies the own properties of \<^verbatim>\<open>v\<close> (those of an
  object, the elements of an array and the code units of a string under their indices,
  none of a boolean or a number); the property \<^verbatim>\<open>k\<close> then takes the value \<^verbatim>\<open>w\<close>, in its
  place when it is there already and at the end otherwise.
\<close>

fun spread :: "jsvalue \<Rightarrow> (jsstring \<times> jsvalue) list" where
  "spread (JObj kvs) = kvs"
| "spread (JArr xs) = zip (map (\<lambda>i. Number_toString (int i)) [0..<length xs]) xs"
| "spread (JStr s) =
     zip (map (\<lambda>i. Number_toString (int i)) [0..<length s]) (map (\<lambda>a. JStr [a]) s)"
| "spread v = []"

primrec set_prop :: "(jsstring \<times> jsvalue) list \<Rightarrow> jsstring \<Rightarrow> jsvalue \<Rightarrow> (jsstring \<times> jsvalue) list"
  where
  "set_prop [] k w = [(k, w)]"
| "set_prop (p # ps) k w = (if fst p = k then (k, w) # ps else p # set_prop ps k w)"

text \<open>
  The promise chain of the request for the image, run on what that request comes to:
  \<^verbatim>\<open>.then(r => r.json())\<close> does not read the status, \<^verbatim>\<open>.catch(() => { })\<close> swallows the
  rejection of the request and of \<^verbatim>\<open>r.json()\<close>, and an image found in the body is put into
  \<^verbatim>\<open>data\<close> by \<^verbatim>\<open>setData((prev) => ({ ...(prev || d), image_url: img }))\<close>.
\<close>

definition image_answer :: "fetch_outcome \<Rightarrow> jsvalue \<Rightarrow> IngredientsState \<Rightarrow> IngredientsState" where
  "image_answer oc d st =
     (case oc of
        Responded r \<Rightarrow>
          (case json r of
             Inl msg \<Rightarrow> st
           | Inr answer \<Rightarrow>
               (case front_image answer of
                  None \<Rightarrow> st
                | Some img \<Rightarrow>
                    if truthy img
                    then st\<lparr>data := JObj (set_prop (spread (if truthy (data st) then data st else d))
                                              (js ''image_url'') img)\<rparr>
                    else st))
      | _ \<Rightarrow> st)"

text \<open>
  The effect of \<^verbatim>\<open>IngredientsPage\<close>. It looks into the cache of the result context only.
  When the product has no image and the identifier is a number, a second request goes
  out for the image, after the data and the caches are set; the page does not wait for
  it before it ends loading, and the effect is settled when that request is.
\<close>

definition IngredientsPage_effect ::
    "Runtime \<Rightarrow> route_param \<Rightarrow> bool \<Rightarrow> Session \<Rightarrow> IngredientsState \<Rightarrow> IngredientsState outcome"
  where
  "IngredientsPage_effect rt params_id mounted ss st =
     (if \<not> param_truthy params_id then
        \<lparr>state = st, session = ss, requests = [], settled = True\<rparr>
      else
        (let ident = id_text (param_id params_id)
         in case truthy_entry (cache ss) ident of
              Some cached \<Rightarrow>
                \<lparr>state = st\<lparr>data := cached, loading := False\<rparr>, session = ss, requests = [],
                 settled = True\<rparr>
            | None \<Rightarrow>
                (let req = \<lparr>url = getApiUrl rt PRODUCT (Some ident), http_method = GET\<rparr>
                 in case fetch rt req of
                      Pending \<Rightarrow>
                        \<lparr>state = st, session = ss, requests = [req], settled = False\<rparr>
                    | Rejected msg \<Rightarrow>
                        \<lparr>state = fetch_failed msg mounted st, session = ss, requests = [req],
                         settled = True\<rparr>
                    | Responded res \<Rightarrow>
                        if \<not> ok res then
                          \<lparr>state = fetch_failed (js ''Failed to fetch ingredients'') mounted st,
                           session = ss, requests = [req], settled = True\<rparr>
                        else
                          (case json res of
                             Inl msg \<Rightarrow>
                               \<lparr>state = fetch_failed msg mounted st, session = ss,
                                requests = [req], settled = True\<rparr>
                           | Inr d \<Rightarrow>
                               if \<not> mounted then
                                 \<lparr>state = st, session = ss, requests = [req], settled = True\<rparr>
                               else
                                 (let st1 = st\<lparr>data := d, loading := False\<rparr>;
                                      ss1 = set_FD_CACHE ident d (setCacheEntry ident d ss);
                                      req2 = \<lparr>url = OPEN_FOOD_FACTS_PRODUCT ident,
                                              http_method = GET\<rparr>
                                  in case get_prop d (js ''image_url'') of
                                       Inl e \<Rightarrow>
                                         \<lparr>state = st1, session = ss1, requests = [req],
                                          settled = True\<rparr>
                                     | Inr img \<Rightarrow>
                                         if \<not> truthy_opt img \<and> param_id params_id \<noteq> None
                                            \<and> ident \<noteq> [] \<and> all_digits ident
                                         then
                                           \<lparr>state = image_answer (fetch rt req2) d st1,
                                            session = ss1, requests = [req, req2],
                                            settled = (fetch rt req2 \<noteq> Pending)\<rparr>
                                         else
                                           \<lparr>state = st1, session = ss1, requests = [req],
                                            settled = True\<rparr>)))))"

datatype ingredients_view =
    FetchingIngredients
  | ErrorLoadingIngredients jsstring
  | IngredientsShown jsvalue

definition IngredientsPage_render :: "IngredientsState \<Rightarrow> ingredients_view" where
  "IngredientsPage_render st =
     (if loading st then FetchingIngredients
      else if truthy_str (error st) \<or> \<not> truthy (data st)
      then ErrorLoadingIngredients
             (case error st of
                Some e \<Rightarrow> if e \<noteq> [] then e else js ''No data found''
              | None \<Rightarrow> js ''No data found'')
      else IngredientsShown (data st))"
section \<open>What a pattern can match\<close>

text \<open>
  The matcher tries the alternatives of a pattern in a fixed order. The relation
  \<open>sem r x y\<close> leaves the order out: it holds when some way through the pattern \<open>r\<close>
  leads from the state \<open>x\<close> to the state \<open>y\<close>. An iteration of a quantifier counts only
  when it shortens the input, as in the matcher.
\<close>

definition shorter :: "(mstate \<Rightarrow> mstate \<Rightarrow> bool) \<Rightarrow> (mstate \<times> mstate) set" where
  "shorter R = {(x, y). R x y \<and> length (fst y) < length (fst x)}"

primrec sem :: "regex \<Rightarrow> mstate \<Rightarrow> mstate \<Rightarrow> bool" where
  "sem (Lit c) x y = (\<exists>a. fst x = a # fst y \<and> cls_mem (CChar c) a \<and> snd y = snd x)"
| "sem (Class A) x y = (\<exists>a. fst x = a # fst y \<and> in_class A a \<and> snd y = snd x)"
| "sem (NClass A) x y = (\<exists>a. fst x = a # fst y \<and> \<not> in_class A a \<and> snd y = snd x)"
| "sem Eps x y = (y = x)"
| "sem (Seq r1 r2) x y = (\<exists>z. sem r1 x z \<and> sem r2 z y)"
| "sem (Alt r1 r2) x y = (sem r1 x y \<or> sem r2 x y)"
| "sem (Star r) x y = ((x, y) \<in> (shorter (sem r))\<^sup>*)"
| "sem (LazyStar r) x y = ((x, y) \<in> (shorter (sem r))\<^sup>*)"
| "sem (Plus r) x y = (\<exists>z. sem r x z \<and> (z, y) \<in> (shorter (sem r))\<^sup>*)"
| "sem (Opt r) x y = (y = x \<or> (sem r x y \<and> length (fst y) < length (fst x)))"
| "sem (Group n r) x y =
     (\<exists>c. sem r x (fst y, c) \<and> snd y = c(n \<mapsto> take (length (fst x) - length (fst y)) (fst x)))"
| "sem (Lookahead r) x y = (\<exists>z. sem r x z \<and> y = (fst x, snd z))"
| "sem Eos x y = (fst x = [] \<and> y = x)"

text \<open>Patterns without a lookahead: for them the matcher finds a match whenever one exists.\<close>

primrec no_lookahead :: "regex \<Rightarrow> bool" where
  "no_lookahead (Lit c) = True"
| "no_lookahead (Class A) = True"
| "no_lookahead (NClass A) = True"
| "no_lookahead Eps = True"
| "no_lookahead (Seq r1 r2) = (no_lookahead r1 \<and> no_lookahead r2)"
| "no_lookahead (Alt r1 r2) = (no_lookahead r1 \<and> no_lookahead r2)"
| "no_lookahead (Star r) = no_lookahead r"
| "no_lookahead (LazyStar r) = no_lookahead r"
| "no_lookahead (Plus r) = no_lookahead r"
| "no_lookahead (Opt r) = no_lookahead r"
| "no_lookahead (Group n r) = no_lookahead r"
| "no_lookahead (Lookahead r) = False"
| "no_lookahead Eos = True"

section \<open>The rating and the verdict in plain terms\<close>

text \<open>
  A word is a literal of a pattern up to the case of its letters, and a string begins
  with a literal in that sense.
\<close>

definition ci_equal :: "string \<Rightarrow> jsstring \<Rightarrow> bool" where
  "ci_equal h w \<longleftrightarrow> map Canonicalize w = map (\<lambda>c. Canonicalize (of_char c)) h"

definition ci_prefix :: "string \<Rightarrow> jsstring \<Rightarrow> bool" where
  "ci_prefix h s \<longleftrightarrow> length h \<le> length s \<and> ci_equal h (take (length h) s)"

text \<open>
  An unsigned decimal number: digits, with or without a dot and more digits; \<open>ip\<close> and
  \<open>fp\<close> are its integer part and its fraction.
\<close>

definition decimal_literal :: "jsstring \<Rightarrow> jsstring \<Rightarrow> jsstring \<Rightarrow> bool" where
  "decimal_literal ip fp num \<longleftrightarrow>
     ip \<noteq> [] \<and> list_all isDigit ip \<and> list_all isDigit fp \<and>
     (if fp = [] then num = ip else num = ip @ js ''.'' @ fp)"

text \<open>
  A rating at the head of a string: the word \<^verbatim>\<open>rating\<close> in any case, one or more colons or
  white-space characters, a number, white space or none, a slash, white space or none,
  and \<^verbatim>\<open>10\<close>. A text contains a rating when one of its suffixes has one at its head.
\<close>

definition rating_match :: "jsstring \<Rightarrow> jsstring \<Rightarrow> jsstring \<Rightarrow> bool" where
  "rating_match s num post \<longleftrightarrow>
     (\<exists>word sep ip fp ws1 ws2.
        s = word @ sep @ num @ ws1 @ js ''/'' @ ws2 @ js ''10'' @ post \<and>
        ci_equal ''Rating'' word \<and>
        sep \<noteq> [] \<and> list_all (\<lambda>x. x = of_char CHR '':'' \<or> isWhiteSpace x) sep \<and>
        decimal_literal ip fp num \<and>
        list_all isWhiteSpace ws1 \<and> list_all isWhiteSpace ws2)"

definition contains_rating :: "jsstring \<Rightarrow> bool" where
  "contains_rating str \<longleftrightarrow> (\<exists>pre s num post. str = pre @ s \<and> rating_match s num post)"

text \<open>
  The verdict. \<open>after_first h s\<close> is what follows the first occurrence of the word \<open>h\<close>
  in \<open>s\<close>. Of that rest one colon at its head is dropped, then all white space, line
  breaks included; \<open>line_after\<close> is what is left up to the end of its line, trimmed.
\<close>

fun after_first :: "string \<Rightarrow> jsstring \<Rightarrow> jsstring option" where
  "after_first h [] = (if ci_prefix h [] then Some [] else None)"
| "after_first h (a # s) =
     (if ci_prefix h (a # s) then Some (drop (length h) (a # s)) else after_first h s)"

definition skip_colon :: "jsstring \<Rightarrow> jsstring" where
  "skip_colon r = (case r of [] \<Rightarrow> [] | a # t \<Rightarrow> if a = of_char CHR '':'' then t else r)"

definition line_after :: "jsstring \<Rightarrow> jsstring" where
  "line_after r = trim (takeWhile (\<lambda>b. b \<noteq> 10) (dropWhile isWhiteSpace (skip_colon r)))"

text \<open>A colon with nothing but line breaks after it.\<close>

definition colon_then_breaks :: "jsstring \<Rightarrow> bool" where
  "colon_then_breaks r \<longleftrightarrow>
     (case r of [] \<Rightarrow> False | a # t \<Rightarrow> a = of_char CHR '':'' \<and> list_all (\<lambda>b. b = 10) t)"

text \<open>
  The verdict in the words of the claim, for comparison: the text that follows
  \<^verbatim>\<open>OVERALL VERDICT:\<close> up to the end of its line, empty when the text has no such line.
\<close>

fun text_after :: "jsstring \<Rightarrow> jsstring \<Rightarrow> jsstring option" where
  "text_after marker [] = (if marker = [] then Some [] else None)"
| "text_after marker (a # s) =
     (if take (length marker) (a # s) = marker then Some (drop (length marker) (a # s))
      else text_after marker s)"

definition verdict_as_claimed :: "jsstring \<Rightarrow> jsstring" where
  "verdict_as_claimed str =
     (case text_after (js ''OVERALL VERDICT:'') str of
        None \<Rightarrow> []
      | Some r \<Rightarrow> takeWhile (\<lambda>b. b \<noteq> 10) r)"

text \<open>
  For the proofs: what the matcher of the verdict pattern computes from the rest after the
  header, in every case.
\<close>

definition verdict_after :: "jsstring \<Rightarrow> jsstring" where
  "verdict_after r =
     (let r' = (case r of [] \<Rightarrow> r | a # t \<Rightarrow> if a = of_char CHR '':'' then t else r)
      in if dropWhile isWhiteSpace r' \<noteq> []
         then trim (takeWhile (\<lambda>b. b \<noteq> 10) (dropWhile isWhiteSpace r'))
         else if (case r of [] \<Rightarrow> False
                  | a # t \<Rightarrow> a = of_char CHR '':'' \<and> list_all (\<lambda>b. b = 10) t)
         then js '':'' else [])"

definition verdict_spec :: "jsstring \<Rightarrow> jsstring" where
  "verdict_spec str =
     (case after_first ''OVERALL VERDICT'' str of None \<Rightarrow> [] | Some r \<Rightarrow> verdict_after r)"

text \<open>
  For the proofs: a pattern without captures has a language, the set of the words it can
  consume; and the two patterns are cut into their parts.
\<close>

definition lang_of :: "regex \<Rightarrow> (jsstring \<Rightarrow> bool) \<Rightarrow> bool" where
  "lang_of r Q \<longleftrightarrow>
     (\<forall>x y. sem r x y \<longleftrightarrow> (\<exists>w. fst x = w @ fst y \<and> Q w \<and> snd y = snd x))"

definition rating_number :: regex where
  "rating_number = Seq (Plus (Class [CDigit])) (Opt (Seq (Lit CHR ''.'') (Plus (Class [CDigit]))))"

definition rating_tail :: regex where
  "rating_tail = Seq (Star (Class [CWs])) (Seq (Lit CHR ''/'') (Seq (Star (Class [CWs])) (lit ''10'')))"

definition rating_core :: regex where
  "rating_core =
     Seq (lit ''Rating'') (Seq (Plus (Class [CChar CHR '':'', CWs])) (Seq (Group 1 rating_number) rating_tail))"

definition verdict_line :: regex where
  "verdict_line = Group 1 (Plus (NClass [CChar (CHR 0x0A)]))"

definition verdict_rest :: regex where
  "verdict_rest = Seq (Opt (Lit CHR '':'')) (Seq (Star (Class [CWs])) verdict_line)"


text \<open>
  The matcher of \<^verbatim>\<open>\s*([^\n]+)\<close> at the end of the verdict pattern, with its counter.
\<close>

definition ws_then_line :: "nat \<Rightarrow> jsstring \<Rightarrow> caps \<Rightarrow> mstate option" where
  "ws_then_line n s cp =
     repeat_greedy (char_matcher isWhiteSpace) n (s, cp) (\<lambda>y. m verdict_line y Some)"

section \<open>Requests, failures and fresh states\<close>

text \<open>The requests that the two pages and the barcode handler send.\<close>

definition product_request :: "Runtime \<Rightarrow> route_param \<Rightarrow> request" where
  "product_request rt params_id =
     \<lparr>url = getApiUrl rt PRODUCT (Some (id_text (param_id params_id))), http_method = GET\<rparr>"



definition barcode_request :: "Runtime \<Rightarrow> jsstring \<Rightarrow> request" where
  "barcode_request rt barcode =
     \<lparr>url = getApiUrl rt BARCODE None @ js ''/'' @ barcode, http_method = GET\<rparr>"


text \<open>The states that \<^verbatim>\<open>useState\<close> gives the components when they mount.\<close>

definition initial_HomeState :: HomeState where
  "initial_HomeState =
     \<lparr>loading = False, searchQuery = [], searchResults = JArr [], hasSearched = False,
      barcodeOpen = False, lastSearchType = text_search, scrollY = 0\<rparr>"

definition initial_AnalysisState :: AnalysisState where
  "initial_AnalysisState =
     \<lparr>loading = True, error = None, analysisText = None, analysisSections = []\<rparr>"

definition initial_IngredientsState :: IngredientsState where
  "initial_IngredientsState = \<lparr>loading = True, error = None, data = JNull\<rparr>"

definition empty_Session :: Session where
  "empty_Session = \<lparr>FD_CACHE = None, cache = Map.empty\<rparr>"

text \<open>
  A browser in production (same origin, no \<^verbatim>\<open>NEXT_PUBLIC_API_URL\<close>) in which every request
  comes to the given outcome; used for the examples.
\<close>

definition browser :: "fetch_outcome \<Rightarrow> Runtime" where
  "browser oc =
     \<lparr>has_window = True, NEXT_PUBLIC_API_URL = None, fetch = (\<lambda>req. oc),
      encodeURIComponent = Some,
      TypeError_message = js ''Cannot read properties of null''\<rparr>"



section \<open>The matcher and what a pattern can match\<close>

text \<open>
  Whatever the matcher returns is a way through the pattern; for a pattern without
  lookahead it returns something whenever there is a way whose continuation succeeds.
\<close>

lemma char_matcher_sound:
  "char_matcher P x k = Some z \<Longrightarrow> \<exists>a s. fst x = a # s \<and> P a \<and> k (s, snd x) = Some z"
  by (auto simp add: char_matcher_def split: list.splits if_splits)

lemma repeat_greedy_sound:
  assumes mr: "\<And>x k z. mr x k = Some z \<Longrightarrow> \<exists>y. R x y \<and> k y = Some z"
  shows "repeat_greedy mr n x k = Some z \<Longrightarrow> \<exists>y. (x, y) \<in> (shorter R)\<^sup>* \<and> k y = Some z"
proof (induction n arbitrary: x)
  case 0
  then have "k x = Some z" by simp
  then show ?case by blast
next
  case (Suc n)
  show ?case
  proof (cases "mr x (\<lambda>y. if length (fst y) < length (fst x) then repeat_greedy mr n y k else None)")
    case None
    with Suc.prems have "k x = Some z" by simp
    then show ?thesis by blast
  next
    case (Some w)
    with Suc.prems have w: "w = z" by simp
    from mr [OF Some] obtain y where y: "R x y"
      and c: "(if length (fst y) < length (fst x) then repeat_greedy mr n y k else None) = Some w"
      by blast
    from c have l: "length (fst y) < length (fst x)" and r: "repeat_greedy mr n y k = Some z"
      using w by (auto split: if_splits)
    from Suc.IH [OF r] obtain y' where "(y, y') \<in> (shorter R)\<^sup>*" "k y' = Some z" by blast
    moreover have "(x, y) \<in> shorter R" using y l by (simp add: shorter_def)
    ultimately show ?thesis by (meson converse_rtrancl_into_rtrancl)
  qed
qed

lemma repeat_lazy_sound:
  assumes mr: "\<And>x k z. mr x k = Some z \<Longrightarrow> \<exists>y. R x y \<and> k y = Some z"
  shows "repeat_lazy mr n x k = Some z \<Longrightarrow> \<exists>y. (x, y) \<in> (shorter R)\<^sup>* \<and> k y = Some z"
proof (induction n arbitrary: x)
  case 0
  then have "k x = Some z" by simp
  then show ?case by blast
next
  case (Suc n)
  show ?case
  proof (cases "k x")
    case (Some w)
    with Suc.prems have "k x = Some z" by simp
    then show ?thesis by blast
  next
    case None
    with Suc.prems
    have "mr x (\<lambda>y. if length (fst y) < length (fst x) then repeat_lazy mr n y k else None) = Some z"
      by simp
    from mr [OF this] obtain y where y: "R x y"
      and c: "(if length (fst y) < length (fst x) then repeat_lazy mr n y k else None) = Some z"
      by blast
    from c have l: "length (fst y) < length (fst x)" and r: "repeat_lazy mr n y k = Some z"
      by (auto split: if_splits)
    from Suc.IH [OF r] obtain y' where "(y, y') \<in> (shorter R)\<^sup>*" "k y' = Some z" by blast
    moreover have "(x, y) \<in> shorter R" using y l by (simp add: shorter_def)
    ultimately show ?thesis by (meson converse_rtrancl_into_rtrancl)
  qed
qed

lemma m_sound: "m r x k = Some z \<Longrightarrow> \<exists>y. sem r x y \<and> k y = Some z"
proof (induction r arbitrary: x k z)
  case (Lit c)
  then show ?case by (cases x) (auto dest!: char_matcher_sound)
next
  case (Class A)
  then show ?case by (cases x) (auto dest!: char_matcher_sound)
next
  case (NClass A)
  then show ?case by (cases x) (auto dest!: char_matcher_sound)
next
  case Eps
  then show ?case by simp
next
  case (Seq r1 r2)
  from Seq.prems have "m r1 x (\<lambda>y. m r2 y k) = Some z" by simp
  from Seq.IH(1) [OF this] obtain y where "sem r1 x y" "m r2 y k = Some z" by blast
  with Seq.IH(2) show ?case by (metis sem.simps(5))
next
  case (Alt r1 r2)
  show ?case
  proof (cases "m r1 x k")
    case None
    with Alt.prems have "m r2 x k = Some z" by simp
    from Alt.IH(2) [OF this] show ?thesis by (metis sem.simps(6))
  next
    case (Some w)
    with Alt.prems have "m r1 x k = Some z" by simp
    from Alt.IH(1) [OF this] show ?thesis by (metis sem.simps(6))
  qed
next
  case (Star r)
  from Star.prems have "repeat_greedy (m r) (length (fst x)) x k = Some z" by simp
  from repeat_greedy_sound [where R = "sem r", OF Star.IH this] show ?case by simp
next
  case (LazyStar r)
  from LazyStar.prems have "repeat_lazy (m r) (length (fst x)) x k = Some z" by simp
  from repeat_lazy_sound [where R = "sem r", OF LazyStar.IH this] show ?case by simp
next
  case (Plus r)
  from Plus.prems have "m r x (\<lambda>y. repeat_greedy (m r) (length (fst y)) y k) = Some z" by simp
  from Plus.IH [OF this] obtain y where y: "sem r x y"
    and "repeat_greedy (m r) (length (fst y)) y k = Some z" by blast
  from repeat_greedy_sound [where R = "sem r", OF Plus.IH this(2)]
  obtain y' where "(y, y') \<in> (shorter (sem r))\<^sup>*" "k y' = Some z" by blast
  with y have "sem (Plus r) x y'" unfolding sem.simps by blast
  with \<open>k y' = Some z\<close> show ?case by blast
next
  case (Opt r)
  show ?case
  proof (cases "m r x (\<lambda>y. if length (fst y) < length (fst x) then k y else None)")
    case None
    with Opt.prems have "k x = Some z" by simp
    moreover have "sem (Opt r) x x" by simp
    ultimately show ?thesis by blast
  next
    case (Some w)
    with Opt.prems have "m r x (\<lambda>y. if length (fst y) < length (fst x) then k y else None) = Some z"
      by simp
    from Opt.IH [OF this] obtain y where y: "sem r x y"
      and c: "(if length (fst y) < length (fst x) then k y else None) = Some z" by blast
    from c have "length (fst y) < length (fst x)" "k y = Some z" by (auto split: if_splits)
    with y have "sem (Opt r) x y" by simp
    with \<open>k y = Some z\<close> show ?thesis by blast
  qed
next
  case (Group n r)
  from Group.prems
  have "m r x (\<lambda>y. k (fst y, (snd y)(n \<mapsto> take (length (fst x) - length (fst y)) (fst x)))) = Some z"
    by simp
  from Group.IH [OF this] obtain y where y: "sem r x y"
    and k: "k (fst y, (snd y)(n \<mapsto> take (length (fst x) - length (fst y)) (fst x))) = Some z" by blast
  from y have "sem (Group n r) x (fst y, (snd y)(n \<mapsto> take (length (fst x) - length (fst y)) (fst x)))"
    by (simp del: split_paired_Ex) (metis prod.collapse)
  with k show ?case by blast
next
  case (Lookahead r)
  show ?case
  proof (cases "m r x Some")
    case None
    with Lookahead.prems show ?thesis by simp
  next
    case (Some y)
    with Lookahead.prems have k: "k (fst x, snd y) = Some z" by simp
    from Lookahead.IH [OF Some] have "sem r x y" by auto
    then have "sem (Lookahead r) x (fst x, snd y)" unfolding sem.simps by blast
    with k show ?thesis by blast
  qed
next
  case Eos
  then have "fst x = []" "k x = Some z" by (auto split: if_splits)
  then have "sem Eos x x" by simp
  with \<open>k x = Some z\<close> show ?case by blast
qed


lemma char_matcher_complete:
  "char_matcher P x k = None \<Longrightarrow> fst x = a # s \<Longrightarrow> P a \<Longrightarrow> k (s, snd x) = None"
  by (simp add: char_matcher_def)

lemma repeat_greedy_complete:
  assumes mr: "\<And>x y k. R x y \<Longrightarrow> mr x k = None \<Longrightarrow> k y = None"
    and "(x, y) \<in> (shorter R)\<^sup>*" and "length (fst x) \<le> n" and "repeat_greedy mr n x k = None"
  shows "k y = None"
  using assms(2-4)
proof (induction arbitrary: n rule: converse_rtrancl_induct)
  case base
  then show ?case by (cases n) (simp_all split: option.splits)
next
  case (step x x1)
  from step.hyps(1) have R: "R x x1" and l: "length (fst x1) < length (fst x)"
    by (simp_all add: shorter_def)
  with step.prems obtain n' where n: "n = Suc n'" and n': "length (fst x1) \<le> n'"
    by (cases n) auto
  from step.prems(2) n
  have "mr x (\<lambda>y. if length (fst y) < length (fst x) then repeat_greedy mr n' y k else None) = None"
    by (simp split: option.splits)
  from mr [OF R this] l have "repeat_greedy mr n' x1 k = None" by simp
  from step.IH [OF n' this] show ?case .
qed

lemma repeat_lazy_complete:
  assumes mr: "\<And>x y k. R x y \<Longrightarrow> mr x k = None \<Longrightarrow> k y = None"
    and "(x, y) \<in> (shorter R)\<^sup>*" and "length (fst x) \<le> n" and "repeat_lazy mr n x k = None"
  shows "k y = None"
  using assms(2-4)
proof (induction arbitrary: n rule: converse_rtrancl_induct)
  case base
  then show ?case by (cases n) (simp_all split: option.splits)
next
  case (step x x1)
  from step.hyps(1) have R: "R x x1" and l: "length (fst x1) < length (fst x)"
    by (simp_all add: shorter_def)
  with step.prems obtain n' where n: "n = Suc n'" and n': "length (fst x1) \<le> n'"
    by (cases n) auto
  from step.prems(2) n
  have "mr x (\<lambda>y. if length (fst y) < length (fst x) then repeat_lazy mr n' y k else None) = None"
    by (simp split: option.splits)
  from mr [OF R this] l have "repeat_lazy mr n' x1 k = None" by simp
  from step.IH [OF n' this] show ?case .
qed

lemma m_complete:
  "no_lookahead r \<Longrightarrow> sem r x y \<Longrightarrow> m r x k = None \<Longrightarrow> k y = None"
proof (induction r arbitrary: x y k)
  case (Lit c)
  from Lit.prems(2) obtain a where "fst x = a # fst y" "cls_mem (CChar c) a" "snd y = snd x"
    by auto
  with Lit.prems(3) char_matcher_complete [of "cls_mem (CChar c)" x k a "fst y"]
  show ?case by (cases y) simp
next
  case (Class A)
  from Class.prems(2) obtain a where "fst x = a # fst y" "in_class A a" "snd y = snd x"
    by auto
  with Class.prems(3) char_matcher_complete [of "in_class A" x k a "fst y"]
  show ?case by (cases y) simp
next
  case (NClass A)
  from NClass.prems(2) obtain a where "fst x = a # fst y" "\<not> in_class A a" "snd y = snd x"
    by auto
  with NClass.prems(3) char_matcher_complete [of "\<lambda>a. \<not> in_class A a" x k a "fst y"]
  show ?case by (cases y) simp
next
  case Eps
  then show ?case by simp
next
  case (Seq r1 r2)
  from Seq.prems obtain z where z: "sem r1 x z" "sem r2 z y" by auto
  from Seq.prems have "m r1 x (\<lambda>y. m r2 y k) = None" by simp
  from Seq.IH(1) [OF _ z(1) this] Seq.prems(1) have "m r2 z k = None" by simp
  from Seq.IH(2) [OF _ z(2) this] Seq.prems(1) show ?case by simp
next
  case (Alt r1 r2)
  from Alt.prems(3) have n: "m r1 x k = None" "m r2 x k = None" by (simp_all split: option.splits)
  from Alt.prems(2) consider "sem r1 x y" | "sem r2 x y" by auto
  then show ?case
  proof cases
    case 1
    from Alt.IH(1) [OF _ 1 n(1)] Alt.prems(1) show ?thesis by simp
  next
    case 2
    from Alt.IH(2) [OF _ 2 n(2)] Alt.prems(1) show ?thesis by simp
  qed
next
  case (Star r)
  from Star.prems have s: "(x, y) \<in> (shorter (sem r))\<^sup>*"
    and n: "repeat_greedy (m r) (length (fst x)) x k = None" by simp_all
  from Star.IH Star.prems(1) have "\<And>x y k. sem r x y \<Longrightarrow> m r x k = None \<Longrightarrow> k y = None" by simp
  then show ?case
    by (rule repeat_greedy_complete [where R = "sem r" and n = "length (fst x)", OF _ s _ n])
      simp_all
next
  case (LazyStar r)
  from LazyStar.prems have s: "(x, y) \<in> (shorter (sem r))\<^sup>*"
    and n: "repeat_lazy (m r) (length (fst x)) x k = None" by simp_all
  from LazyStar.IH LazyStar.prems(1)
  have "\<And>x y k. sem r x y \<Longrightarrow> m r x k = None \<Longrightarrow> k y = None" by simp
  then show ?case
    by (rule repeat_lazy_complete [where R = "sem r" and n = "length (fst x)", OF _ s _ n])
      simp_all
next
  case (Plus r)
  from Plus.prems obtain z where z: "sem r x z" "(z, y) \<in> (shorter (sem r))\<^sup>*" by auto
  from Plus.IH Plus.prems(1)
  have mr: "\<And>x y k. sem r x y \<Longrightarrow> m r x k = None \<Longrightarrow> k y = None" by simp
  from Plus.prems(3) have "m r x (\<lambda>y. repeat_greedy (m r) (length (fst y)) y k) = None" by simp
  from mr [OF z(1) this] have "repeat_greedy (m r) (length (fst z)) z k = None" .
  note rz = this
  show ?case
    by (rule repeat_greedy_complete [where R = "sem r" and n = "length (fst z)", OF _ z(2) _ rz])
      (simp_all add: mr)
next
  case (Opt r)
  from Opt.prems(3)
  have n: "m r x (\<lambda>y. if length (fst y) < length (fst x) then k y else None) = None" "k x = None"
    by (simp_all split: option.splits)
  from Opt.prems(2) consider "y = x" | "sem r x y" "length (fst y) < length (fst x)" by auto
  then show ?case
  proof cases
    case 1
    with n(2) show ?thesis by simp
  next
    case 2
    from Opt.IH [OF _ 2(1) n(1)] Opt.prems(1) 2(2) show ?thesis by simp
  qed
next
  case (Group n r)
  from Group.prems(2) obtain c where c: "sem r x (fst y, c)"
    and y: "snd y = c(n \<mapsto> take (length (fst x) - length (fst y)) (fst x))" by auto
  from Group.prems(3)
  have "m r x (\<lambda>w. k (fst w, (snd w)(n \<mapsto> take (length (fst x) - length (fst w)) (fst x)))) = None"
    by simp
  from Group.IH [OF _ c this] Group.prems(1) y show ?case by (cases y) simp
next
  case (Lookahead r)
  then show ?case by simp
next
  case Eos
  then show ?case by (simp split: if_splits)
qed

lemma shorter_rtrancl_caps:
  assumes step: "\<And>x y. R x y \<Longrightarrow> snd x n \<noteq> None \<Longrightarrow> snd y n \<noteq> None"
    and "(x, y) \<in> (shorter R)\<^sup>*" and "snd x n \<noteq> None"
  shows "snd y n \<noteq> None"
  using assms(2,3)
proof (induction rule: rtrancl_induct)
  case base
  then show ?case .
next
  case (step y z)
  from step.hyps(2) have "R y z" by (simp add: shorter_def)
  from assms(1) [OF this] step.IH step.prems show ?case by blast
qed

lemma sem_caps_mono: "sem r x y \<Longrightarrow> snd x n \<noteq> None \<Longrightarrow> snd y n \<noteq> None"
proof (induction r arbitrary: x y)
  case (Seq r1 r2)
  from Seq.prems(1) obtain z where z: "sem r1 x z" "sem r2 z y" by auto
  from Seq.IH(1) [OF z(1) Seq.prems(2)] have "snd z n \<noteq> None" .
  from Seq.IH(2) [OF z(2) this] show ?case .
next
  case (Alt r1 r2)
  from Alt.prems(1) consider "sem r1 x y" | "sem r2 x y" by auto
  then show ?case
  proof cases
    case 1
    from Alt.IH(1) [OF 1 Alt.prems(2)] show ?thesis .
  next
    case 2
    from Alt.IH(2) [OF 2 Alt.prems(2)] show ?thesis .
  qed
next
  case (Star r)
  from Star.prems(1) have "(x, y) \<in> (shorter (sem r))\<^sup>*" by simp
  from shorter_rtrancl_caps [where R = "sem r", OF Star.IH this Star.prems(2)] show ?case .
next
  case (LazyStar r)
  from LazyStar.prems(1) have "(x, y) \<in> (shorter (sem r))\<^sup>*" by simp
  from shorter_rtrancl_caps [where R = "sem r", OF LazyStar.IH this LazyStar.prems(2)]
  show ?case .
next
  case (Plus r)
  from Plus.prems(1) obtain z where z: "sem r x z" "(z, y) \<in> (shorter (sem r))\<^sup>*" by auto
  from Plus.IH [OF z(1) Plus.prems(2)] have "snd z n \<noteq> None" .
  from shorter_rtrancl_caps [where R = "sem r", OF Plus.IH z(2) this] show ?case .
next
  case (Opt r)
  from Opt.prems(1) consider "y = x" | "sem r x y" by auto
  then show ?case
  proof cases
    case 1
    with Opt.prems(2) show ?thesis by simp
  next
    case 2
    from Opt.IH [OF 2 Opt.prems(2)] show ?thesis .
  qed
next
  case (Group n' r)
  from Group.prems(1) obtain c where c: "sem r x (fst y, c)"
    and y: "snd y = c(n' \<mapsto> take (length (fst x) - length (fst y)) (fst x))" by auto
  from Group.IH [OF c Group.prems(2)] have "c n \<noteq> None" by simp
  with y show ?case by simp
next
  case (Lookahead r)
  from Lookahead.prems(1) obtain z where z: "sem r x z" "y = (fst x, snd z)" by auto
  from Lookahead.IH [OF z(1) Lookahead.prems(2)] z(2) show ?case by simp
qed auto
subsection \<open>The result of \<^verbatim>\<open>match\<close>\<close>

lemma String_match_Some_sem:
  "String_match str r = Some mt \<Longrightarrow>
   \<exists>pre rest y. str = pre @ rest \<and> sem r (rest, Map.empty) y \<and> group mt = snd y"
proof (induction str)
  case Nil
  then obtain y where y: "m r ([], Map.empty) Some = Some y" "group mt = snd y"
    by (auto split: option.splits)
  from m_sound [OF y(1)] have "sem r ([], Map.empty) y" by auto
  with y(2) show ?case by blast
next
  case (Cons a s)
  show ?case
  proof (cases "m r (a # s, Map.empty) Some")
    case None
    with Cons.prems have "String_match s r = Some mt" by simp
    from Cons.IH [OF this] obtain pre rest y where "s = pre @ rest" "sem r (rest, Map.empty) y"
      "group mt = snd y" by blast
    then have "a # s = (a # pre) @ rest" by simp
    with \<open>sem r (rest, Map.empty) y\<close> \<open>group mt = snd y\<close> show ?thesis by blast
  next
    case (Some y)
    with Cons.prems have g: "group mt = snd y" by auto
    from m_sound [OF Some] have "sem r (a # s, Map.empty) y" by auto
    moreover have "a # s = [] @ (a # s)" by simp
    ultimately show ?thesis using g by blast
  qed
qed

lemma String_match_None_sem:
  "no_lookahead r \<Longrightarrow> String_match str r = None \<Longrightarrow> str = pre @ rest \<Longrightarrow>
   \<not> sem r (rest, Map.empty) y"
proof (induction str arbitrary: pre)
  case Nil
  then have "m r ([], Map.empty) Some = None" "rest = []" by (auto split: option.splits)
  with m_complete [OF Nil.prems(1), of "([], Map.empty)" y Some] show ?case by auto
next
  case (Cons a s)
  from Cons.prems(2) have n: "m r (a # s, Map.empty) Some = None" "String_match s r = None"
    by (auto split: option.splits)
  show ?case
  proof (cases pre)
    case Nil
    with Cons.prems(3) have "rest = a # s" by simp
    with n(1) m_complete [OF Cons.prems(1), of "(a # s, Map.empty)" y Some] show ?thesis by auto
  next
    case (Cons b pre')
    with Cons.prems(3) have "s = pre' @ rest" by simp
    from Cons.IH [OF Cons.prems(1) n(2) this] show ?thesis .
  qed
qed

lemma section_regex_group:
  assumes "String_match text (section_regex h) = Some mt"
  shows "group mt 1 \<noteq> None"
proof -
  from String_match_Some_sem [OF assms] obtain rest y
    where y: "sem (section_regex h) (rest, Map.empty) y" and g: "group mt = snd y" by blast
  from y obtain z1 z2 where "sem (Group 1 (LazyStar (Class [CWs, CNonWs]))) z1 z2" and l: "sem lookahead z2 y"
    unfolding section_regex_def sem.simps(5) by blast
  then have "snd z2 1 \<noteq> None" by auto
  from sem_caps_mono [OF l this] g show ?thesis by simp
qed

lemma trim_Nil [simp]: "trim [] = []"
  by (simp add: trim_def)

lemma section_of_Some_iff:
  assumes "pattern p = section_regex h"
  shows "section_of text p = Some s \<longleftrightarrow>
     (\<exists>mt g. String_match text (pattern p) = Some mt \<and> group mt 1 = Some g \<and> trim g \<noteq> [] \<and>
        s = \<lparr>title = title p, icon = icon p, color = color p, content = trim g\<rparr>)"
  by (auto simp add: section_of_def Let_def split: option.splits)

lemma section_of_None_iff:
  assumes "pattern p = section_regex h"
  shows "section_of text p = None \<longleftrightarrow>
     (String_match text (pattern p) = None \<or>
      (\<exists>mt g. String_match text (pattern p) = Some mt \<and> group mt 1 = Some g \<and> trim g = []))"
  using section_regex_group [of "text" h] assms
  by (auto simp add: section_of_def Let_def split: option.splits)

lemma section_of_title: "section_of text p = Some s \<Longrightarrow> title s = title p"
  by (auto simp add: section_of_def Let_def split: option.splits if_splits)

lemma parseAnalysisText_map_filter:
  "parseAnalysisText text = List.map_filter (section_of text) sectionPatterns"
  by (simp add: parseAnalysisText_def sectionPatterns_def List.map_filter_def split: option.splits)

lemma sectionPatterns_regex: "p \<in> set sectionPatterns \<Longrightarrow> \<exists>h. pattern p = section_regex h"
  by (auto simp add: sectionPatterns_def)

lemma sectionPatterns_titles:
  "map title sectionPatterns =
     [js ''Summary'', js ''Key Risks'', js ''Positive Highlights'', js ''Recommendation'',
      js ''Marketing Traps'']"
  by (simp add: sectionPatterns_def)

lemma sectionPatterns_distinct: "distinct (map title sectionPatterns)"
  by (simp add: sectionPatterns_titles js_def)

lemma sectionPatterns_inj:
  "p \<in> set sectionPatterns \<Longrightarrow> q \<in> set sectionPatterns \<Longrightarrow> title p = title q \<Longrightarrow> p = q"
  using sectionPatterns_distinct by (meson distinct_map inj_onD)

lemma in_set_map_filter:
  "y \<in> set (List.map_filter f xs) \<longleftrightarrow> (\<exists>x \<in> set xs. f x = Some y)"
  by (induction xs) (auto split: option.splits)

lemma in_parseAnalysisText:
  "s \<in> set (parseAnalysisText text) \<longleftrightarrow> (\<exists>p \<in> set sectionPatterns. section_of text p = Some s)"
  by (simp add: parseAnalysisText_map_filter in_set_map_filter)

lemma subseq_map_filter:
  assumes "\<And>p s. f p = Some s \<Longrightarrow> g s = h p"
  shows "subseq (map g (List.map_filter f ps)) (map h ps)"
proof (induction ps)
  case Nil
  then show ?case by simp
next
  case (Cons p ps)
  show ?case
  proof (cases "f p")
    case None
    with Cons.IH show ?thesis by (simp add: list_emb_Cons)
  next
    case (Some s)
    with assms have "g s = h p" by simp
    with Some Cons.IH show ?thesis by simp
  qed
qed

subsection \<open>The pages\<close>

lemma tryUseCache_miss: "\<not> snd (tryUseCache ident ss st) \<Longrightarrow> tryUseCache ident ss st = (st, False)"
  by (simp add: tryUseCache_def split: option.splits)








lemma getApiUrl_unfold:
  "getApiUrl env e path =
     getBaseUrl env @ ENDPOINTS e @
       (case path of Some p \<Rightarrow> if p = [] then [] else js ''/'' @ p | None \<Rightarrow> [])"
  by (simp add: getApiUrl_def Let_def split: option.splits)

lemma handleBarcodeSearch_not_object:
  assumes "fetch rt (barcode_request rt barcode) = Responded res" and "json res = Inr d"
    and "\<forall>kvs. d \<noteq> JObj kvs"
  shows "searchResults (state (handleBarcodeSearch rt barcode ss st)) = JArr []"
  using assms
  by (cases d) (simp_all add: handleBarcodeSearch_def barcode_request_def Let_def search_failed_def)

lemma handleBarcodeSearch_object:
  assumes "fetch rt (barcode_request rt barcode) = Responded res" and "json res = Inr (JObj kvs)"
  shows "searchResults (state (handleBarcodeSearch rt barcode ss st)) =
     (if ok res \<and> truthy_opt (map_of kvs (js ''product_name'')) \<and> truthy_opt (map_of kvs (js ''id''))
      then JArr [JObj [(js ''product_name'', the (map_of kvs (js ''product_name''))),
                    (js ''brand'', or_else (map_of kvs (js ''brand'')) (JStr (js ''Unknown Brand''))),
                    (js ''id'', the (map_of kvs (js ''id''))),
                    (js ''image_url'', or_else (map_of kvs (js ''image_url'')) (JStr []))]]
      else JArr [])"
  using assms
  by (simp add: handleBarcodeSearch_def barcode_request_def Let_def search_failed_def truthy_opt_def
      split: option.splits)

lemma handleBarcodeSearch_cases:
  "searchResults (state (handleBarcodeSearch rt barcode ss st)) = JArr [] \<or>
   (\<exists>res kvs name ident.
      fetch rt (barcode_request rt barcode) = Responded res \<and> ok res \<and>
      json res = Inr (JObj kvs) \<and> map_of kvs (js ''product_name'') = Some name \<and> truthy name \<and>
      map_of kvs (js ''id'') = Some ident \<and> truthy ident \<and>
      searchResults (state (handleBarcodeSearch rt barcode ss st)) =
        JArr [JObj [(js ''product_name'', name),
                    (js ''brand'', or_else (map_of kvs (js ''brand'')) (JStr (js ''Unknown Brand''))),
                    (js ''id'', ident),
                    (js ''image_url'', or_else (map_of kvs (js ''image_url'')) (JStr []))]])"
proof (cases "fetch rt (barcode_request rt barcode)")
  case (Rejected e)
  then show ?thesis
    by (simp add: handleBarcodeSearch_def barcode_request_def Let_def search_failed_def)
next
  case Pending
  then show ?thesis
    by (simp add: handleBarcodeSearch_def barcode_request_def Let_def search_failed_def)
next
  case (Responded res)
  show ?thesis
  proof (cases "json res")
    case (Inl e)
    with Responded show ?thesis
      by (simp add: handleBarcodeSearch_def barcode_request_def Let_def search_failed_def)
  next
    case (Inr d)
    show ?thesis
    proof (cases "\<exists>kvs. d = JObj kvs")
      case False
      with handleBarcodeSearch_not_object [OF Responded Inr] show ?thesis by simp
    next
      case True
      then obtain kvs where d: "d = JObj kvs" by blast
      from handleBarcodeSearch_object [OF Responded Inr [unfolded d], where ss = ss and st = st]
      show ?thesis
        using Responded Inr d by (auto simp add: truthy_opt_def split: option.splits if_splits)
    qed
  qed
qed

lemma handleBarcodeSearch_hit:
  assumes "fetch rt (barcode_request rt barcode) = Responded res" and "ok res"
    and "json res = Inr (JObj kvs)"
    and "map_of kvs (js ''product_name'') = Some name" and "truthy name"
    and "map_of kvs (js ''id'') = Some ident" and "truthy ident"
  shows "searchResults (state (handleBarcodeSearch rt barcode ss st)) =
        JArr [JObj [(js ''product_name'', name),
                    (js ''brand'', or_else (map_of kvs (js ''brand'')) (JStr (js ''Unknown Brand''))),
                    (js ''id'', ident),
                    (js ''image_url'', or_else (map_of kvs (js ''image_url'')) (JStr []))]]"
  using assms by (simp add: handleBarcodeSearch_def barcode_request_def Let_def)

subsection \<open>The sessions of the program and the cached entries\<close>




















subsection \<open>The request for the image\<close>





subsection \<open>The rating and the verdict\<close>

lemma unat_Canonicalize:
  "unat (Canonicalize a) = (if 97 \<le> unat a \<and> unat a \<le> 122 then unat a - 32 else unat a)"
  by (simp add: Canonicalize_def word_le_nat_alt unat_sub)

lemma Canonicalize_eq_nonletter:
  assumes "\<not> (65 \<le> unat t \<and> unat t \<le> 90)" "\<not> (97 \<le> unat t \<and> unat t \<le> 122)"
  shows "Canonicalize a = t \<longleftrightarrow> a = t"
  using assms by (auto simp add: word_unat_eq_iff unat_Canonicalize)

lemma Canonicalize_colon [simp]: "Canonicalize a = 58 \<longleftrightarrow> a = 58"
  by (rule Canonicalize_eq_nonletter) simp_all

lemma Canonicalize_nl [simp]: "Canonicalize a = 10 \<longleftrightarrow> a = 10"
  by (rule Canonicalize_eq_nonletter) simp_all

lemma Canonicalize_dot [simp]: "Canonicalize a = 46 \<longleftrightarrow> a = 46"
  by (rule Canonicalize_eq_nonletter) simp_all

lemma Canonicalize_slash [simp]: "Canonicalize a = 47 \<longleftrightarrow> a = 47"
  by (rule Canonicalize_eq_nonletter) simp_all

lemma Canonicalize_one [simp]: "Canonicalize a = 49 \<longleftrightarrow> a = 49"
  by (rule Canonicalize_eq_nonletter) simp_all

lemma Canonicalize_zero [simp]: "Canonicalize a = 48 \<longleftrightarrow> a = 48"
  by (rule Canonicalize_eq_nonletter) simp_all

lemma Canonicalize_const [simp]:
  "Canonicalize 58 = 58" "Canonicalize 10 = 10" "Canonicalize 46 = 46" "Canonicalize 47 = 47"
  "Canonicalize 49 = 49" "Canonicalize 48 = 48"
  by (simp_all add: Canonicalize_def)

lemma ci_equal_Nil [simp]: "ci_equal [] w \<longleftrightarrow> w = []"
  by (auto simp add: ci_equal_def)

lemma ci_equal_Cons:
  "ci_equal (c # h) w \<longleftrightarrow> (\<exists>a v. w = a # v \<and> Canonicalize a = Canonicalize (of_char c) \<and> ci_equal h v)"
  by (cases w) (auto simp add: ci_equal_def)

lemma lit_Nil [simp]: "lit [] = Eps"
  by (simp add: lit_def)

lemma lit_Cons [simp]: "lit (c # h) = Seq (Lit c) (lit h)"
  by (simp add: lit_def)

lemma sem_lit_iff:
  "sem (lit h) x y \<longleftrightarrow> (\<exists>w. fst x = w @ fst y \<and> ci_equal h w \<and> snd y = snd x)"
proof (induction h arbitrary: x)
  case Nil
  show ?case by (cases x; cases y) auto
next
  case (Cons c h)
  show ?case
  proof
    assume "sem (lit (c # h)) x y"
    then obtain z a where z: "fst x = a # fst z" "Canonicalize a = Canonicalize (of_char c)"
      "snd z = snd x" "sem (lit h) z y" by auto
    from z(4) Cons.IH [of z] obtain w where "fst z = w @ fst y" "ci_equal h w" "snd y = snd z"
      by blast
    with z have "fst x = (a # w) @ fst y \<and> ci_equal (c # h) (a # w) \<and> snd y = snd x"
      by (simp add: ci_equal_Cons)
    then show "\<exists>w. fst x = w @ fst y \<and> ci_equal (c # h) w \<and> snd y = snd x" by blast
  next
    assume "\<exists>w. fst x = w @ fst y \<and> ci_equal (c # h) w \<and> snd y = snd x"
    then obtain a v where w: "fst x = (a # v) @ fst y" "Canonicalize a = Canonicalize (of_char c)"
      "ci_equal h v" "snd y = snd x" by (auto simp add: ci_equal_Cons)
    then have "sem (lit h) (v @ fst y, snd x) y" using Cons.IH [of "(v @ fst y, snd x)"] by auto
    with w show "sem (lit (c # h)) x y"
      by (auto intro!: exI [of _ "v @ fst y"] exI [of _ "snd x"])
  qed
qed

lemma shorter_char_star:
  assumes step: "\<And>x y. R x y \<longleftrightarrow> (\<exists>a. fst x = a # fst y \<and> P a \<and> snd y = snd x)"
  shows "(x, y) \<in> (shorter R)\<^sup>* \<longleftrightarrow> (\<exists>w. fst x = w @ fst y \<and> list_all P w \<and> snd y = snd x)"
proof
  assume "(x, y) \<in> (shorter R)\<^sup>*"
  then show "\<exists>w. fst x = w @ fst y \<and> list_all P w \<and> snd y = snd x"
  proof (induction rule: converse_rtrancl_induct)
    case base
    have "fst y = [] @ fst y \<and> list_all P [] \<and> snd y = snd y" by simp
    then show ?case by blast
  next
    case (step x z)
    from step.hyps(1) have "R x z" by (simp add: shorter_def)
    with assms obtain a where a: "fst x = a # fst z" "P a" "snd z = snd x" by blast
    from step.IH obtain w where "fst z = w @ fst y" "list_all P w" "snd y = snd z" by blast
    with a have "fst x = (a # w) @ fst y \<and> list_all P (a # w) \<and> snd y = snd x" by simp
    then show ?case by blast
  qed
next
  assume "\<exists>w. fst x = w @ fst y \<and> list_all P w \<and> snd y = snd x"
  then obtain w where "fst x = w @ fst y" "list_all P w" "snd y = snd x" by blast
  then show "(x, y) \<in> (shorter R)\<^sup>*"
  proof (induction w arbitrary: x)
    case Nil
    then have "x = y" by (simp add: prod_eq_iff)
    then show ?case by simp
  next
    case (Cons a w)
    let ?z = "(w @ fst y, snd x)"
    from Cons.prems have "R x ?z" using assms [of x ?z] by simp
    with Cons.prems have "(x, ?z) \<in> shorter R" by (simp add: shorter_def)
    moreover from Cons.prems have "(?z, y) \<in> (shorter R)\<^sup>*" by (intro Cons.IH) simp_all
    ultimately show ?case by (rule converse_rtrancl_into_rtrancl)
  qed
qed

lemma sem_Star_Class:
  "sem (Star (Class A)) x y \<longleftrightarrow> (\<exists>w. fst x = w @ fst y \<and> list_all (in_class A) w \<and> snd y = snd x)"
  using shorter_char_star [of "sem (Class A)" "in_class A" x y] by simp

lemma sem_Plus_Class:
  "sem (Plus (Class A)) x y \<longleftrightarrow>
     (\<exists>w. w \<noteq> [] \<and> fst x = w @ fst y \<and> list_all (in_class A) w \<and> snd y = snd x)"
proof
  assume "sem (Plus (Class A)) x y"
  then obtain z a where z: "fst x = a # fst z" "in_class A a" "snd z = snd x"
    "(z, y) \<in> (shorter (sem (Class A)))\<^sup>*" by auto
  from z(4) shorter_char_star [of "sem (Class A)" "in_class A" z y]
  obtain w where "fst z = w @ fst y" "list_all (in_class A) w" "snd y = snd z" by auto
  with z have "a # w \<noteq> [] \<and> fst x = (a # w) @ fst y \<and> list_all (in_class A) (a # w) \<and> snd y = snd x"
    by simp
  then show "\<exists>w. w \<noteq> [] \<and> fst x = w @ fst y \<and> list_all (in_class A) w \<and> snd y = snd x" by blast
next
  assume "\<exists>w. w \<noteq> [] \<and> fst x = w @ fst y \<and> list_all (in_class A) w \<and> snd y = snd x"
  then obtain a w where w: "fst x = (a # w) @ fst y" "list_all (in_class A) (a # w)" "snd y = snd x"
    by (metis list.exhaust)
  let ?z = "(w @ fst y, snd x)"
  have "(?z, y) \<in> (shorter (sem (Class A)))\<^sup>*"
    using shorter_char_star [of "sem (Class A)" "in_class A" ?z y] w by auto
  moreover have "sem (Class A) x ?z" using w by simp
  ultimately show "sem (Plus (Class A)) x y" unfolding sem.simps by blast
qed

lemma lang_ofD: "lang_of r Q \<Longrightarrow> sem r x y \<longleftrightarrow> (\<exists>w. fst x = w @ fst y \<and> Q w \<and> snd y = snd x)"
  unfolding lang_of_def by blast

lemma lang_of_lit: "lang_of (lit h) (ci_equal h)"
  unfolding lang_of_def using sem_lit_iff by blast

lemma lang_of_Lit: "lang_of (Lit c) (\<lambda>w. \<exists>a. w = [a] \<and> Canonicalize a = Canonicalize (of_char c))"
  unfolding lang_of_def by auto

lemma lang_of_Star_Class: "lang_of (Star (Class A)) (list_all (in_class A))"
  unfolding lang_of_def using sem_Star_Class by blast

lemma lang_of_Plus_Class: "lang_of (Plus (Class A)) (\<lambda>w. w \<noteq> [] \<and> list_all (in_class A) w)"
  unfolding lang_of_def using sem_Plus_Class by blast

lemma sem_Seq_lang:
  assumes "lang_of r1 Q1" and "lang_of r2 Q2"
  shows "sem (Seq r1 r2) x y \<longleftrightarrow>
     (\<exists>w. fst x = w @ fst y \<and> (\<exists>u v. w = u @ v \<and> Q1 u \<and> Q2 v) \<and> snd y = snd x)"
proof
  assume "sem (Seq r1 r2) x y"
  then obtain z where z: "sem r1 x z" "sem r2 z y" by auto
  from z(1) lang_ofD [OF assms(1)] obtain u where u: "fst x = u @ fst z" "Q1 u" "snd z = snd x"
    by blast
  from z(2) lang_ofD [OF assms(2)] obtain v where v: "fst z = v @ fst y" "Q2 v" "snd y = snd z"
    by blast
  from u v have "fst x = (u @ v) @ fst y \<and> (\<exists>u' v'. u @ v = u' @ v' \<and> Q1 u' \<and> Q2 v') \<and> snd y = snd x"
    by auto
  then show "\<exists>w. fst x = w @ fst y \<and> (\<exists>u v. w = u @ v \<and> Q1 u \<and> Q2 v) \<and> snd y = snd x" by blast
next
  assume "\<exists>w. fst x = w @ fst y \<and> (\<exists>u v. w = u @ v \<and> Q1 u \<and> Q2 v) \<and> snd y = snd x"
  then obtain u v where w: "fst x = (u @ v) @ fst y" "Q1 u" "Q2 v" "snd y = snd x" by blast
  let ?z = "(v @ fst y, snd x)"
  from w have "sem r1 x ?z" using lang_ofD [OF assms(1), of x ?z] by auto
  moreover from w have "sem r2 ?z y" using lang_ofD [OF assms(2), of ?z y] by auto
  ultimately show "sem (Seq r1 r2) x y" unfolding sem.simps by blast
qed

lemma lang_of_Seq:
  assumes "lang_of r1 Q1" and "lang_of r2 Q2"
  shows "lang_of (Seq r1 r2) (\<lambda>w. \<exists>u v. w = u @ v \<and> Q1 u \<and> Q2 v)"
  unfolding lang_of_def using sem_Seq_lang [OF assms] by blast

lemma sem_Opt_lang:
  assumes "lang_of r Q"
  shows "sem (Opt r) x y \<longleftrightarrow> (\<exists>w. fst x = w @ fst y \<and> (w = [] \<or> Q w) \<and> snd y = snd x)"
proof
  assume "sem (Opt r) x y"
  then consider "y = x" | "sem r x y" by auto
  then show "\<exists>w. fst x = w @ fst y \<and> (w = [] \<or> Q w) \<and> snd y = snd x"
  proof cases
    case 1
    then have "fst x = [] @ fst y \<and> snd y = snd x" by simp
    then show ?thesis by blast
  next
    case 2
    with lang_ofD [OF assms] show ?thesis by blast
  qed
next
  assume "\<exists>w. fst x = w @ fst y \<and> (w = [] \<or> Q w) \<and> snd y = snd x"
  then obtain w where w: "fst x = w @ fst y" "w = [] \<or> Q w" "snd y = snd x" by blast
  show "sem (Opt r) x y"
  proof (cases "w = []")
    case True
    with w have "y = x" by (simp add: prod_eq_iff)
    then show ?thesis by simp
  next
    case False
    with w have "sem r x y" using lang_ofD [OF assms, of x y] by auto
    moreover from False w have "length (fst y) < length (fst x)" by simp
    ultimately show ?thesis by simp
  qed
qed

lemma lang_of_Opt:
  assumes "lang_of r Q"
  shows "lang_of (Opt r) (\<lambda>w. w = [] \<or> Q w)"
  unfolding lang_of_def using sem_Opt_lang [OF assms] by blast

lemma sem_Group_lang:
  assumes "lang_of r Q"
  shows "sem (Group n r) x y \<longleftrightarrow> (\<exists>w. fst x = w @ fst y \<and> Q w \<and> snd y = (snd x)(n \<mapsto> w))"
proof
  assume "sem (Group n r) x y"
  then obtain c where c: "sem r x (fst y, c)"
    "snd y = c(n \<mapsto> take (length (fst x) - length (fst y)) (fst x))" by auto
  from c(1) lang_ofD [OF assms, of x "(fst y, c)"]
  obtain w where "fst x = w @ fst y" "Q w" "c = snd x" by auto
  with c(2) have "fst x = w @ fst y \<and> Q w \<and> snd y = (snd x)(n \<mapsto> w)" by simp
  then show "\<exists>w. fst x = w @ fst y \<and> Q w \<and> snd y = (snd x)(n \<mapsto> w)" by blast
next
  assume "\<exists>w. fst x = w @ fst y \<and> Q w \<and> snd y = (snd x)(n \<mapsto> w)"
  then obtain w where w: "fst x = w @ fst y" "Q w" "snd y = (snd x)(n \<mapsto> w)" by blast
  then have "sem r x (fst y, snd x)" using lang_ofD [OF assms, of x "(fst y, snd x)"] by auto
  moreover from w have "snd y = (snd x)(n \<mapsto> take (length (fst x) - length (fst y)) (fst x))"
    by simp
  ultimately show "sem (Group n r) x y" unfolding sem.simps by blast
qed

lemma sem_Seq_lang1:
  assumes "lang_of r1 Q"
  shows "sem (Seq r1 r2) x y \<longleftrightarrow> (\<exists>w s. fst x = w @ s \<and> Q w \<and> sem r2 (s, snd x) y)"
proof
  assume "sem (Seq r1 r2) x y"
  then obtain z where z: "sem r1 x z" "sem r2 z y" by auto
  from z(1) lang_ofD [OF assms] obtain w where "fst x = w @ fst z" "Q w" "snd z = snd x" by blast
  with z(2) have "fst x = w @ fst z \<and> Q w \<and> sem r2 (fst z, snd x) y" by (cases z) simp
  then show "\<exists>w s. fst x = w @ s \<and> Q w \<and> sem r2 (s, snd x) y" by blast
next
  assume "\<exists>w s. fst x = w @ s \<and> Q w \<and> sem r2 (s, snd x) y"
  then obtain w s where w: "fst x = w @ s" "Q w" "sem r2 (s, snd x) y" by blast
  then have "sem r1 x (s, snd x)" using lang_ofD [OF assms, of x "(s, snd x)"] by auto
  with w(3) show "sem (Seq r1 r2) x y" unfolding sem.simps by blast
qed

lemma lang_of_cong: "lang_of r Q \<Longrightarrow> (\<And>w. Q w \<longleftrightarrow> Q' w) \<Longrightarrow> lang_of r Q'"
  by (simp add: lang_of_def)

lemma in_class_simps [simp]:
  "in_class [CDigit] = isDigit"
  "in_class [CWs] = isWhiteSpace"
  "in_class [CChar CHR '':'', CWs] = (\<lambda>a. a = 58 \<or> isWhiteSpace a)"
  "in_class [CChar (CHR 0x0A)] = (\<lambda>a. a = 10)"
  by (simp_all add: in_class_def fun_eq_iff)

lemma sem_Seq_pair:
  assumes "lang_of r1 Q"
  shows "sem (Seq r1 r2) (s, c) y \<longleftrightarrow> (\<exists>w s'. s = w @ s' \<and> Q w \<and> sem r2 (s', c) y)"
  using sem_Seq_lang1 [OF assms, of r2 "(s, c)" y] by (simp only: fst_conv snd_conv)

lemma sem_Group_pair:
  assumes "lang_of r Q"
  shows "sem (Group n r) (s, c) y \<longleftrightarrow> (\<exists>w. s = w @ fst y \<and> Q w \<and> snd y = c(n \<mapsto> w))"
  using sem_Group_lang [OF assms, of n "(s, c)" y] by (simp only: fst_conv snd_conv)

lemma ci_equal_10: "ci_equal ''10'' t \<longleftrightarrow> t = js ''10''"
  by (auto simp add: ci_equal_Cons js_def)

lemma ratingPattern_core:
  "ratingPattern = Seq (Opt (Seq (lit ''Health'') (Plus (Class [CWs])))) rating_core"
  by (simp add: ratingPattern_def rating_core_def rating_number_def rating_tail_def)

lemma lang_of_rating_number: "lang_of rating_number (\<lambda>num. \<exists>ip fp. decimal_literal ip fp num)"
proof (rule lang_of_cong)
  show "lang_of rating_number
     (\<lambda>w. \<exists>u v. w = u @ v \<and> (u \<noteq> [] \<and> list_all (in_class [CDigit]) u) \<and>
        (v = [] \<or> (\<exists>u' v'. v = u' @ v' \<and> (\<exists>a. u' = [a] \<and> Canonicalize a = Canonicalize (of_char CHR ''.'')) \<and>
           (v' \<noteq> [] \<and> list_all (in_class [CDigit]) v'))))"
    unfolding rating_number_def
    by (intro lang_of_Seq lang_of_Opt lang_of_Plus_Class lang_of_Lit)
next
  fix w
  show "(\<exists>u v. w = u @ v \<and> (u \<noteq> [] \<and> list_all (in_class [CDigit]) u) \<and>
        (v = [] \<or> (\<exists>u' v'. v = u' @ v' \<and> (\<exists>a. u' = [a] \<and> Canonicalize a = Canonicalize (of_char CHR ''.'')) \<and>
           (v' \<noteq> [] \<and> list_all (in_class [CDigit]) v')))) \<longleftrightarrow>
     (\<exists>ip fp. decimal_literal ip fp w)"
  proof
    assume "\<exists>u v. w = u @ v \<and> (u \<noteq> [] \<and> list_all (in_class [CDigit]) u) \<and>
        (v = [] \<or> (\<exists>u' v'. v = u' @ v' \<and> (\<exists>a. u' = [a] \<and> Canonicalize a = Canonicalize (of_char CHR ''.'')) \<and>
           (v' \<noteq> [] \<and> list_all (in_class [CDigit]) v')))"
    then obtain u v where u: "w = u @ v" "u \<noteq> []" "list_all isDigit u"
      and v: "v = [] \<or> (\<exists>v'. v = 46 # v' \<and> v' \<noteq> [] \<and> list_all isDigit v')"
      by auto
    from v show "\<exists>ip fp. decimal_literal ip fp w"
    proof
      assume "v = []"
      with u have "decimal_literal u [] w" by (simp add: decimal_literal_def)
      then show ?thesis by blast
    next
      assume "\<exists>v'. v = 46 # v' \<and> v' \<noteq> [] \<and> list_all isDigit v'"
      then obtain v' where "v = 46 # v'" "v' \<noteq> []" "list_all isDigit v'" by blast
      with u have "decimal_literal u v' w" by (simp add: decimal_literal_def js_def)
      then show ?thesis by blast
    qed
  next
    assume "\<exists>ip fp. decimal_literal ip fp w"
    then obtain ip fp where d: "decimal_literal ip fp w" by blast
    show "\<exists>u v. w = u @ v \<and> (u \<noteq> [] \<and> list_all (in_class [CDigit]) u) \<and>
        (v = [] \<or> (\<exists>u' v'. v = u' @ v' \<and> (\<exists>a. u' = [a] \<and> Canonicalize a = Canonicalize (of_char CHR ''.'')) \<and>
           (v' \<noteq> [] \<and> list_all (in_class [CDigit]) v')))"
    proof (cases "fp = []")
      case True
      with d show ?thesis by (intro exI [of _ ip] exI [of _ "[]"]) (simp add: decimal_literal_def)
    next
      case False
      with d show ?thesis
        by (intro exI [of _ ip] exI [of _ "46 # fp"]) (simp add: decimal_literal_def js_def)
    qed
  qed
qed

lemma rating_tail_words:
  "(\<exists>u v. w = u @ v \<and> list_all (in_class [CWs]) u \<and>
        (\<exists>u' v'. v = u' @ v' \<and> (\<exists>a. u' = [a] \<and> Canonicalize a = Canonicalize (of_char CHR ''/'')) \<and>
           (\<exists>u'' v''. v' = u'' @ v'' \<and> list_all (in_class [CWs]) u'' \<and> ci_equal ''10'' v''))) \<longleftrightarrow>
     (\<exists>ws1 ws2. w = ws1 @ js ''/'' @ ws2 @ js ''10'' \<and> list_all isWhiteSpace ws1 \<and> list_all isWhiteSpace ws2)"
proof
  assume "\<exists>u v. w = u @ v \<and> list_all (in_class [CWs]) u \<and>
        (\<exists>u' v'. v = u' @ v' \<and> (\<exists>a. u' = [a] \<and> Canonicalize a = Canonicalize (of_char CHR ''/'')) \<and>
           (\<exists>u'' v''. v' = u'' @ v'' \<and> list_all (in_class [CWs]) u'' \<and> ci_equal ''10'' v''))"
  then obtain u v u' v' a u'' v'' where f: "w = u @ v" "list_all (in_class [CWs]) u" "v = u' @ v'"
    "u' = [a]" "Canonicalize a = Canonicalize (of_char CHR ''/'')" "v' = u'' @ v''"
    "list_all (in_class [CWs]) u''" "ci_equal ''10'' v''"
    by blast
  from f(5) have "a = 47" by simp
  moreover from f(8) have "v'' = js ''10''" by (simp add: ci_equal_10)
  ultimately have "w = u @ js ''/'' @ u'' @ js ''10''" using f(1,3,4,6) by (simp add: js_def)
  moreover from f(2,7) have "list_all isWhiteSpace u" "list_all isWhiteSpace u''" by simp_all
  ultimately show "\<exists>ws1 ws2. w = ws1 @ js ''/'' @ ws2 @ js ''10'' \<and> list_all isWhiteSpace ws1 \<and>
      list_all isWhiteSpace ws2" by blast
next
  assume "\<exists>ws1 ws2. w = ws1 @ js ''/'' @ ws2 @ js ''10'' \<and> list_all isWhiteSpace ws1 \<and>
      list_all isWhiteSpace ws2"
  then obtain ws1 ws2 where g: "w = ws1 @ js ''/'' @ ws2 @ js ''10''" "list_all isWhiteSpace ws1"
    "list_all isWhiteSpace ws2" by blast
  have 1: "w = ws1 @ ([47] @ (ws2 @ js ''10''))" using g(1) by (simp add: js_def)
  have 2: "Canonicalize 47 = Canonicalize (of_char CHR ''/'')" by simp
  have 3: "ci_equal ''10'' (js ''10'')" by (simp add: ci_equal_10)
  have 4: "list_all (in_class [CWs]) ws1" "list_all (in_class [CWs]) ws2" using g(2,3) by simp_all
  from 1 2 3 4
  show "\<exists>u v. w = u @ v \<and> list_all (in_class [CWs]) u \<and>
        (\<exists>u' v'. v = u' @ v' \<and> (\<exists>a. u' = [a] \<and> Canonicalize a = Canonicalize (of_char CHR ''/'')) \<and>
           (\<exists>u'' v''. v' = u'' @ v'' \<and> list_all (in_class [CWs]) u'' \<and> ci_equal ''10'' v''))"
    by blast
qed

lemma lang_of_rating_tail:
  "lang_of rating_tail
     (\<lambda>w. \<exists>ws1 ws2. w = ws1 @ js ''/'' @ ws2 @ js ''10'' \<and> list_all isWhiteSpace ws1 \<and> list_all isWhiteSpace ws2)"
proof (rule lang_of_cong)
  show "lang_of rating_tail
     (\<lambda>w. \<exists>u v. w = u @ v \<and> list_all (in_class [CWs]) u \<and>
        (\<exists>u' v'. v = u' @ v' \<and> (\<exists>a. u' = [a] \<and> Canonicalize a = Canonicalize (of_char CHR ''/'')) \<and>
           (\<exists>u'' v''. v' = u'' @ v'' \<and> list_all (in_class [CWs]) u'' \<and> ci_equal ''10'' v'')))"
    unfolding rating_tail_def
    by (intro lang_of_Seq lang_of_Star_Class lang_of_Lit lang_of_lit)
qed (rule rating_tail_words)

lemma sem_rating_core:
  "sem rating_core (s, c) y \<longleftrightarrow> (\<exists>num. rating_match s num (fst y) \<and> snd y = c(1 \<mapsto> num))"
proof
  assume "sem rating_core (s, c) y"
  then have "\<exists>word s1. s = word @ s1 \<and> ci_equal ''Rating'' word \<and>
      sem (Seq (Plus (Class [CChar CHR '':'', CWs])) (Seq (Group 1 rating_number) rating_tail)) (s1, c) y"
    unfolding rating_core_def by (rule sem_Seq_pair [OF lang_of_lit, THEN iffD1])
  then obtain word s1 where w: "s = word @ s1" "ci_equal ''Rating'' word"
    and s1: "sem (Seq (Plus (Class [CChar CHR '':'', CWs])) (Seq (Group 1 rating_number) rating_tail)) (s1, c) y"
    by blast
  from s1 have "\<exists>sep s2. s1 = sep @ s2 \<and> (sep \<noteq> [] \<and> list_all (in_class [CChar CHR '':'', CWs]) sep) \<and>
      sem (Seq (Group 1 rating_number) rating_tail) (s2, c) y"
    by (rule sem_Seq_pair [OF lang_of_Plus_Class, THEN iffD1])
  then obtain sep s2 where sep0: "s1 = sep @ s2" "sep \<noteq> []"
      "list_all (in_class [CChar CHR '':'', CWs]) sep"
    and s2: "sem (Seq (Group 1 rating_number) rating_tail) (s2, c) y"
    by blast
  from sep0(3) have "list_all (\<lambda>x. x = 58 \<or> isWhiteSpace x) sep" by simp
  note sep = sep0(1,2) this
  from s2 obtain z where z: "sem (Group 1 rating_number) (s2, c) z" "sem rating_tail z y"
    unfolding sem.simps(5) by blast
  from z(1) have "\<exists>num. s2 = num @ fst z \<and> (\<exists>ip fp. decimal_literal ip fp num) \<and> snd z = c(1 \<mapsto> num)"
    by (rule sem_Group_pair [OF lang_of_rating_number, THEN iffD1])
  then obtain num ip fp where num: "s2 = num @ fst z" "decimal_literal ip fp num" "snd z = c(1 \<mapsto> num)"
    by blast
  from z(2) lang_ofD [OF lang_of_rating_tail, of z y]
  obtain ws1 ws2 where t: "fst z = (ws1 @ js ''/'' @ ws2 @ js ''10'') @ fst y"
    "list_all isWhiteSpace ws1" "list_all isWhiteSpace ws2" "snd y = snd z" by blast
  have "s = word @ sep @ num @ ws1 @ js ''/'' @ ws2 @ js ''10'' @ fst y"
    using w(1) sep(1) num(1) t(1) by simp
  moreover have "list_all (\<lambda>x. x = of_char CHR '':'' \<or> isWhiteSpace x) sep" using sep(3) by simp
  ultimately have "rating_match s num (fst y)"
    unfolding rating_match_def using w(2) sep(2) num(2) t(2,3) by blast
  with num(3) t(4) show "\<exists>num. rating_match s num (fst y) \<and> snd y = c(1 \<mapsto> num)" by auto
next
  assume "\<exists>num. rating_match s num (fst y) \<and> snd y = c(1 \<mapsto> num)"
  then obtain num word sep ip fp ws1 ws2
    where r0: "s = word @ sep @ num @ ws1 @ js ''/'' @ ws2 @ js ''10'' @ fst y"
      "ci_equal ''Rating'' word" "sep \<noteq> []"
      "list_all (\<lambda>x. x = of_char CHR '':'' \<or> isWhiteSpace x) sep"
      "decimal_literal ip fp num" "list_all isWhiteSpace ws1" "list_all isWhiteSpace ws2"
      "snd y = c(1 \<mapsto> num)"
    unfolding rating_match_def by blast
  from r0(4) have "list_all (\<lambda>x. x = 58 \<or> isWhiteSpace x) sep" by simp
  note r = r0(1-3) this r0(5-8)
  let ?t = "ws1 @ js ''/'' @ ws2 @ js ''10'' @ fst y"
  let ?z = "(?t, c(1 \<mapsto> num))"
  have "\<exists>w. fst ?z = w @ fst y \<and>
      (\<exists>ws1 ws2. w = ws1 @ js ''/'' @ ws2 @ js ''10'' \<and> list_all isWhiteSpace ws1 \<and> list_all isWhiteSpace ws2) \<and>
      snd y = snd ?z"
    using r(6,7,8) by (intro exI [of _ "ws1 @ js ''/'' @ ws2 @ js ''10''"]) auto
  then have tail: "sem rating_tail ?z y" by (rule lang_ofD [OF lang_of_rating_tail, THEN iffD2])
  have "\<exists>w. num @ ?t = w @ fst ?z \<and> (\<exists>ip fp. decimal_literal ip fp w) \<and> snd ?z = c(1 \<mapsto> w)"
    using r(5) by (intro exI [of _ num]) auto
  then have "sem (Group 1 rating_number) (num @ ?t, c) ?z"
    by (rule sem_Group_pair [OF lang_of_rating_number, THEN iffD2])
  with tail have "sem (Seq (Group 1 rating_number) rating_tail) (num @ ?t, c) y"
    unfolding sem.simps(5) by blast
  with r(3,4) have "\<exists>w s'. sep @ num @ ?t = w @ s' \<and> (w \<noteq> [] \<and> list_all (in_class [CChar CHR '':'', CWs]) w) \<and>
      sem (Seq (Group 1 rating_number) rating_tail) (s', c) y"
    by (intro exI [of _ sep] exI [of _ "num @ ?t"]) simp
  then have "sem (Seq (Plus (Class [CChar CHR '':'', CWs])) (Seq (Group 1 rating_number) rating_tail))
      (sep @ num @ ?t, c) y"
    by (rule sem_Seq_pair [OF lang_of_Plus_Class, THEN iffD2])
  with r(1,2) have "\<exists>w s'. s = w @ s' \<and> ci_equal ''Rating'' w \<and>
      sem (Seq (Plus (Class [CChar CHR '':'', CWs])) (Seq (Group 1 rating_number) rating_tail)) (s', c) y"
    by (intro exI [of _ word] exI [of _ "sep @ num @ ?t"]) simp
  then show "sem rating_core (s, c) y"
    unfolding rating_core_def by (rule sem_Seq_pair [OF lang_of_lit, THEN iffD2])
qed

lemma no_lookahead_lit [simp]: "no_lookahead (lit h)"
  by (induction h) simp_all

lemma no_lookahead_ratingPattern: "no_lookahead ratingPattern"
  by (simp add: ratingPattern_def)

lemma no_lookahead_verdictPattern: "no_lookahead verdictPattern"
  by (simp add: verdictPattern_def)

lemma sem_ratingPattern:
  "sem ratingPattern (s, c) y \<longleftrightarrow>
     (\<exists>w s'. s = w @ s' \<and>
        (w = [] \<or> (\<exists>u v. w = u @ v \<and> ci_equal ''Health'' u \<and> v \<noteq> [] \<and> list_all (in_class [CWs]) v)) \<and>
        sem rating_core (s', c) y)"
  unfolding ratingPattern_core
  by (rule sem_Seq_pair [OF lang_of_Opt [OF lang_of_Seq [OF lang_of_lit lang_of_Plus_Class]]])

lemma contains_rating_sem:
  "contains_rating str \<longleftrightarrow> (\<exists>pre rest y. str = pre @ rest \<and> sem ratingPattern (rest, Map.empty) y)"
proof
  assume "contains_rating str"
  then obtain pre s num post where c: "str = pre @ s" "rating_match s num post"
    unfolding contains_rating_def by blast
  let ?y = "(post, [1 \<mapsto> num])"
  from c(2) have "sem rating_core (s, Map.empty) ?y"
    unfolding sem_rating_core by (intro exI [of _ num]) simp
  then have "sem ratingPattern (s, Map.empty) ?y"
    unfolding sem_ratingPattern by (intro exI [of _ "[]"] exI [of _ s]) simp
  with c(1) show "\<exists>pre rest y. str = pre @ rest \<and> sem ratingPattern (rest, Map.empty) y" by blast
next
  assume "\<exists>pre rest y. str = pre @ rest \<and> sem ratingPattern (rest, Map.empty) y"
  then obtain pre rest y where r: "str = pre @ rest" "sem ratingPattern (rest, Map.empty) y" by blast
  from r(2) obtain w s' where w: "rest = w @ s'" "sem rating_core (s', Map.empty) y"
    unfolding sem_ratingPattern by blast
  from w(2) obtain num where "rating_match s' num (fst y)" unfolding sem_rating_core by blast
  moreover from r(1) w(1) have "str = (pre @ w) @ s'" by simp
  ultimately show "contains_rating str" unfolding contains_rating_def by blast
qed

lemma rating_None_iff: "String_match str ratingPattern = None \<longleftrightarrow> \<not> contains_rating str"
proof
  assume n: "String_match str ratingPattern = None"
  show "\<not> contains_rating str"
    unfolding contains_rating_sem
    using String_match_None_sem [OF no_lookahead_ratingPattern n] by blast
next
  assume c: "\<not> contains_rating str"
  show "String_match str ratingPattern = None"
  proof (cases "String_match str ratingPattern")
    case (Some mt)
    from String_match_Some_sem [OF Some] c show ?thesis unfolding contains_rating_sem by blast
  qed simp
qed

lemma rating_Some:
  assumes "String_match str ratingPattern = Some mt"
  shows "\<exists>pre s num post. str = pre @ s \<and> rating_match s num post \<and> group mt 1 = Some num"
proof -
  from String_match_Some_sem [OF assms] obtain pre rest y
    where r: "str = pre @ rest" "sem ratingPattern (rest, Map.empty) y" "group mt = snd y" by blast
  from r(2) obtain w s' where w: "rest = w @ s'" "sem rating_core (s', Map.empty) y"
    unfolding sem_ratingPattern by blast
  from w(2) obtain num where n: "rating_match s' num (fst y)" "snd y = [1 \<mapsto> num]"
    unfolding sem_rating_core by blast
  from r(1) w(1) have "str = (pre @ w) @ s'" by simp
  moreover from r(3) n(2) have "group mt 1 = Some num" by simp
  ultimately show ?thesis using n(1) by blast
qed

lemma isDigit_dot [simp]: "\<not> isDigit 46"
  by (simp add: isDigit_def)

lemma digits_value_Nil [simp]: "digits_value [] = 0"
  by (simp add: digits_value_def)

lemma not_isWhiteSpace_digit: "isDigit c \<Longrightarrow> \<not> isWhiteSpace c"
  by (auto simp add: isDigit_def isWhiteSpace_def word_le_nat_alt)

lemma unsigned_literal_digits:
  assumes "u = c # t" and "isDigit c" and "takeWhile isDigit u = ip" and "dropWhile isDigit u = r1"
    and "(case r1 of [] \<Rightarrow> False | a # t \<Rightarrow> a = of_char CHR ''.'') = dot"
  shows "unsigned_literal u =
     (let fp = (if dot then takeWhile isDigit (tl r1) else []);
          r2 = (if dot then dropWhile isDigit (tl r1) else r1);
          k = exponent_part r2 - int (length fp)
      in if ip = [] \<and> fp = [] then NaN
         else if 0 \<le> k then binary64 (digits_value (ip @ fp) * 10 ^ nat k) 1
         else binary64 (digits_value (ip @ fp)) (10 ^ nat (- k)))"
proof -
  from assms(1,2) have "take 8 u \<noteq> js ''Infinity''"
    by (auto simp add: js_def isDigit_def)
  then show ?thesis
    unfolding unsigned_literal_def using assms(3,4,5) by (simp add: Let_def)
qed

lemma parseFloat_digit:
  assumes "isDigit c"
  shows "parseFloat (c # t) = unsigned_literal (c # t)"
proof -
  from assms have "c \<noteq> of_char CHR ''-''" "c \<noteq> of_char CHR ''+''" by (auto simp add: isDigit_def)
  with not_isWhiteSpace_digit [OF assms] show ?thesis by (simp add: parseFloat_def)
qed

lemma parseFloat_decimal:
  assumes "decimal_literal ip fp num"
  shows "parseFloat num = binary64 (digits_value (ip @ fp)) (10 ^ length fp)"
proof (cases "fp = []")
  case True
  with assms have n: "num = ip" "ip \<noteq> []" "list_all isDigit ip" by (simp_all add: decimal_literal_def)
  from n(2,3) obtain c t where ct: "ip = c # t" "isDigit c" by (cases ip) auto
  from n(1,3) have tw: "takeWhile isDigit num = ip" and dw: "dropWhile isDigit num = []"
    by (simp_all add: list_all_iff)
  have "unsigned_literal num = binary64 (digits_value (ip @ fp)) (10 ^ length fp)"
    using unsigned_literal_digits [OF _ ct(2) tw dw, of t False] n(1,2) ct(1) True
    by (simp add: exponent_part_def)
  with parseFloat_digit [OF ct(2), of t] n(1) ct(1) show ?thesis by simp
next
  case False
  with assms have n: "num = ip @ 46 # fp" "ip \<noteq> []" "list_all isDigit ip" "list_all isDigit fp"
    by (simp_all add: decimal_literal_def js_def)
  from n(2,3) obtain c t where ct: "ip = c # t" "isDigit c" by (cases ip) auto
  from n(1,3) have tw: "takeWhile isDigit num = ip" and dw: "dropWhile isDigit num = 46 # fp"
    by (simp_all add: list_all_iff takeWhile_append2 dropWhile_append2)
  from n(4) have tf: "takeWhile isDigit fp = fp" "dropWhile isDigit fp = []"
    by (simp_all add: list_all_iff)
  have "unsigned_literal num = binary64 (digits_value (ip @ fp)) (10 ^ length fp)"
    using unsigned_literal_digits [OF _ ct(2) tw dw, of "t @ 46 # fp" True] n(1,2) ct(1) False tf
    by (simp add: exponent_part_def)
  with parseFloat_digit [OF ct(2), of "t @ 46 # fp"] n(1) ct(1) show ?thesis by simp
qed

lemma binary64_nonneg: "binary64 a b = Infinity \<or> (\<exists>q. binary64 a b = Finite q \<and> 0 \<le> q)"
  by (simp add: binary64_def Let_def pow2_def)

lemma ci_prefix_Nil [simp]: "ci_prefix [] s"
  by (simp add: ci_prefix_def)

lemma ci_prefix_Cons:
  "ci_prefix (c # h) s \<longleftrightarrow>
     (\<exists>a t. s = a # t \<and> Canonicalize a = Canonicalize (of_char c) \<and> ci_prefix h t)"
  by (cases s) (auto simp add: ci_prefix_def ci_equal_Cons)

lemma m_Lit_pair:
  "m (Lit c) (s, cp) k =
     (case s of [] \<Rightarrow> None
      | a # t \<Rightarrow> if Canonicalize a = Canonicalize (of_char c) then k (t, cp) else None)"
  by (cases s) (simp_all add: char_matcher_def)

lemma m_lit:
  "m (lit h) (s, cp) k = (if ci_prefix h s then k (drop (length h) s, cp) else None)"
proof (induction h arbitrary: s)
  case Nil
  show ?case by simp
next
  case (Cons c h)
  show ?case
  proof (cases s)
    case Nil
    then show ?thesis by (simp add: char_matcher_def ci_prefix_Cons)
  next
    case (Cons a t)
    with Cons.IH [of t] show ?thesis by (simp add: char_matcher_def ci_prefix_Cons)
  qed
qed

lemma repeat_greedy_total:
  assumes "\<And>y. k y \<noteq> None" and "length s \<le> n"
  shows "repeat_greedy (char_matcher P) n (s, cp) k = k (dropWhile P s, cp)"
  using assms(2)
proof (induction n arbitrary: s)
  case 0
  then show ?case by simp
next
  case (Suc n)
  show ?case
  proof (cases s)
    case Nil
    then show ?thesis by (simp add: char_matcher_def)
  next
    case (Cons a t)
    with Suc.prems have "length t \<le> n" by simp
    from Suc.IH [OF this] assms(1) [of "(dropWhile P t, cp)"] Cons show ?thesis
      by (auto simp add: char_matcher_def split: option.splits)
  qed
qed

lemma m_NClass_fun: "m (NClass A) = char_matcher (\<lambda>a. \<not> in_class A a)"
  by (rule ext)+ simp

lemma m_Class_fun: "m (Class A) = char_matcher (in_class A)"
  by (rule ext)+ simp

lemma take_Suc_takeWhile:
  "take (Suc (length t) - length (dropWhile P t)) (a # t) = a # takeWhile P t"
proof -
  have "length t = length (takeWhile P t) + length (dropWhile P t)"
    by (metis length_append takeWhile_dropWhile_id)
  then have "Suc (length t) - length (dropWhile P t) = Suc (length (takeWhile P t))" by simp
  then show ?thesis by (simp add: takeWhile_eq_take [symmetric])
qed

lemma m_verdict_line:
  "m verdict_line (s, cp) Some =
     (case s of [] \<Rightarrow> None
      | a # t \<Rightarrow> if a = 10 then None
                 else Some (dropWhile (\<lambda>b. b \<noteq> 10) t, cp(1 \<mapsto> a # takeWhile (\<lambda>b. b \<noteq> 10) t)))"
proof (cases s)
  case Nil
  then show ?thesis by (simp add: verdict_line_def char_matcher_def)
next
  case (Cons a t)
  have "repeat_greedy (char_matcher (\<lambda>b. b \<noteq> 10)) (length t) (t, cp)
          (\<lambda>y. Some (fst y, (snd y)(1 \<mapsto> take (Suc (length t) - length (fst y)) (a # t)))) =
        Some (dropWhile (\<lambda>b. b \<noteq> 10) t, cp(1 \<mapsto> a # takeWhile (\<lambda>b. b \<noteq> 10) t))"
    by (subst repeat_greedy_total) (simp_all add: take_Suc_takeWhile)
  with Cons show ?thesis
    by (simp add: verdict_line_def m_NClass_fun) (simp add: char_matcher_def)
qed

lemma isWhiteSpace_nl [simp]: "isWhiteSpace 10"
  by (simp add: isWhiteSpace_def)

lemma not_isWhiteSpace_colon [simp]: "\<not> isWhiteSpace 58"
  by (simp add: isWhiteSpace_def)

lemma verdict_line_Some:
  "s \<noteq> [] \<Longrightarrow> hd s \<noteq> 10 \<Longrightarrow>
   m verdict_line (s, cp) Some =
     Some (dropWhile (\<lambda>b. b \<noteq> 10) s, cp(1 \<mapsto> takeWhile (\<lambda>b. b \<noteq> 10) s))"
  by (cases s) (simp_all add: m_verdict_line)

lemma verdict_line_None: "s = [] \<or> hd s = 10 \<Longrightarrow> m verdict_line (s, cp) Some = None"
  by (cases s) (simp_all add: m_verdict_line)

lemma ws_then_line_Cons:
  "ws_then_line (Suc n) (a # t) cp =
     (if isWhiteSpace a
      then (case ws_then_line n t cp of Some z \<Rightarrow> Some z | None \<Rightarrow> m verdict_line (a # t, cp) Some)
      else m verdict_line (a # t, cp) Some)"
  by (simp add: ws_then_line_def char_matcher_def)

lemma ws_then_line_Nil: "ws_then_line n [] cp = None"
  by (cases n) (simp_all add: ws_then_line_def char_matcher_def verdict_line_None)

lemma ws_then_line_skip:
  assumes "dropWhile isWhiteSpace s \<noteq> []" and "length s \<le> n"
  shows "ws_then_line n s cp =
     Some (dropWhile (\<lambda>b. b \<noteq> 10) (dropWhile isWhiteSpace s),
           cp(1 \<mapsto> takeWhile (\<lambda>b. b \<noteq> 10) (dropWhile isWhiteSpace s)))"
  using assms
proof (induction s arbitrary: n)
  case Nil
  then show ?case by simp
next
  case (Cons a t)
  from Cons.prems(2) obtain n' where n: "n = Suc n'" "length t \<le> n'" by (cases n) auto
  show ?case
  proof (cases "isWhiteSpace a")
    case True
    with Cons.prems(1) have "dropWhile isWhiteSpace t \<noteq> []" by simp
    from Cons.IH [OF this n(2)] True show ?thesis by (simp add: n(1) ws_then_line_Cons)
  next
    case False
    then have "a \<noteq> 10" by auto
    with False show ?thesis by (simp add: n(1) ws_then_line_Cons verdict_line_Some fun_eq_iff)
  qed
qed

lemma ws_then_line_newlines:
  assumes "list_all (\<lambda>b. b = 10) s"
  shows "ws_then_line n s cp = None"
  using assms
proof (induction s arbitrary: n)
  case Nil
  show ?case by (rule ws_then_line_Nil)
next
  case (Cons a t)
  then have a: "a = 10" and t: "list_all (\<lambda>b. b = 10) t" by simp_all
  show ?case
  proof (cases n)
    case 0
    with a show ?thesis by (simp add: ws_then_line_def verdict_line_None)
  next
    case (Suc n')
    with Cons.IH [OF t, of n'] a show ?thesis by (simp add: ws_then_line_Cons verdict_line_None)
  qed
qed

lemma ws_then_line_blank:
  assumes "list_all isWhiteSpace s" and "length s \<le> n" and "\<not> list_all (\<lambda>b. b = 10) s"
  shows "\<exists>z g. ws_then_line n s cp = Some z \<and> snd z 1 = Some g \<and> list_all isWhiteSpace g"
  using assms
proof (induction s arbitrary: n)
  case Nil
  then show ?case by simp
next
  case (Cons a t)
  from Cons.prems(2) obtain n' where n: "n = Suc n'" "length t \<le> n'" by (cases n) auto
  from Cons.prems(1) have a: "isWhiteSpace a" and t: "list_all isWhiteSpace t" by simp_all
  show ?case
  proof (cases "list_all (\<lambda>b. b = 10) t")
    case False
    from Cons.IH [OF t n(2) False] a show ?thesis by (auto simp add: n(1) ws_then_line_Cons)
  next
    case True
    with Cons.prems(3) have "a \<noteq> 10" by simp
    moreover from t have "list_all isWhiteSpace (takeWhile (\<lambda>b. b \<noteq> 10) t)"
      by (simp add: list_all_iff) (meson set_takeWhileD)
    ultimately show ?thesis
      using a ws_then_line_newlines [OF True, of n' cp]
      by (simp add: n(1) ws_then_line_Cons verdict_line_Some)
  qed
qed

lemma trim_blank:
  assumes "list_all isWhiteSpace g"
  shows "trim g = []"
proof -
  from assms have d: "dropWhile isWhiteSpace g = []" by (simp add: list_all_iff)
  show ?thesis unfolding trim_def d by simp
qed

lemma verdictPattern_rest: "verdictPattern = Seq (lit ''OVERALL VERDICT'') verdict_rest"
  by (simp add: verdictPattern_def verdict_rest_def verdict_line_def)

lemma ws_then_line_fold:
  "repeat_greedy (m (Class [CWs])) n (s, cp) (\<lambda>y. m verdict_line y Some) = ws_then_line n s cp"
  by (simp add: ws_then_line_def m_Class_fun)

lemma m_verdict_rest:
  "m verdict_rest (s, cp) Some =
     (case s of
        [] \<Rightarrow> ws_then_line 0 [] cp
      | a # t \<Rightarrow>
          if a = 58
          then (case ws_then_line (length t) t cp of
                  Some z \<Rightarrow> Some z
                | None \<Rightarrow> ws_then_line (Suc (length t)) (a # t) cp)
          else ws_then_line (Suc (length t)) (a # t) cp)"
proof (cases s)
  case Nil
  then show ?thesis by (simp add: verdict_rest_def char_matcher_def ws_then_line_def)
next
  case (Cons a t)
  then show ?thesis
    by (auto simp add: verdict_rest_def char_matcher_def ws_then_line_fold ws_then_line_Cons
        cong: option.case_cong)
qed

lemma trim_colon: "trim [58] = [58]"
  by (simp add: trim_def)

lemma takeWhile_newlines: "list_all (\<lambda>b. b = 10) t \<Longrightarrow> takeWhile (\<lambda>b. b \<noteq> (10 :: jschar)) t = []"
  by (cases t) simp_all

lemma newlines_blank: "list_all (\<lambda>b. b = 10) t \<Longrightarrow> list_all isWhiteSpace t"
  by (induction t) simp_all

lemma verdict_after_skip:
  assumes "dropWhile isWhiteSpace s \<noteq> []" and "s = [] \<or> hd s \<noteq> 58"
  shows "verdict_after s = trim (takeWhile (\<lambda>b. b \<noteq> 10) (dropWhile isWhiteSpace s))"
  using assms by (cases s) (auto simp add: verdict_after_def Let_def split: if_splits)

lemma verdict_after_blank:
  assumes "dropWhile isWhiteSpace s = []" and "s = [] \<or> hd s \<noteq> 58"
  shows "verdict_after s = []"
  using assms by (cases s) (auto simp add: verdict_after_def Let_def split: if_splits)

lemma verdict_after_colon_skip:
  assumes "dropWhile isWhiteSpace t \<noteq> []"
  shows "verdict_after (58 # t) = trim (takeWhile (\<lambda>b. b \<noteq> 10) (dropWhile isWhiteSpace t))"
  using assms by (auto simp add: verdict_after_def Let_def split: if_splits)

lemma verdict_after_colon_blank:
  assumes "dropWhile isWhiteSpace t = []" and "\<not> list_all (\<lambda>b. b = 10) t"
  shows "verdict_after (58 # t) = []"
  using assms by (auto simp add: verdict_after_def Let_def split: if_splits)

lemma verdict_after_colon_newlines:
  assumes "list_all (\<lambda>b. b = 10) t"
  shows "verdict_after (58 # t) = [58]"
proof -
  from newlines_blank [OF assms] have "dropWhile isWhiteSpace t = []" by (simp add: list_all_iff)
  with assms show ?thesis by (simp add: verdict_after_def js_def)
qed

lemma verdict_rest_Some:
  assumes "m verdict_rest (s, cp) Some = Some z"
  shows "\<exists>g. snd z 1 = Some g \<and> trim g = verdict_after s"
proof (cases s)
  case Nil
  with assms show ?thesis by (simp add: m_verdict_rest ws_then_line_Nil)
next
  case (Cons a t)
  show ?thesis
  proof (cases "a = 58")
    case True
    show ?thesis
    proof (cases "dropWhile isWhiteSpace t = []")
      case False
      from ws_then_line_skip [OF False, of "length t" cp] assms Cons True
      have "snd z 1 = Some (takeWhile (\<lambda>b. b \<noteq> 10) (dropWhile isWhiteSpace t))"
        by (auto simp add: m_verdict_rest)
      with verdict_after_colon_skip [OF False] Cons True show ?thesis by simp
    next
      case blank: True
      then have b: "list_all isWhiteSpace t" by (simp add: list_all_iff)
      show ?thesis
      proof (cases "list_all (\<lambda>b. b = 10) t")
        case False
        from ws_then_line_blank [OF b _ False, of "length t" cp]
        obtain z' g where z': "ws_then_line (length t) t cp = Some z'" "snd z' 1 = Some g"
          "list_all isWhiteSpace g" by auto
        with assms Cons True have "z = z'" by (simp add: m_verdict_rest)
        with z'(2) trim_blank [OF z'(3)] verdict_after_colon_blank [OF blank False] Cons True
        show ?thesis by simp
      next
        case nl: True
        have "dropWhile isWhiteSpace (a # t) \<noteq> []" using True by simp
        from ws_then_line_skip [OF this, of "Suc (length t)" cp]
          ws_then_line_newlines [OF nl, of "length t" cp] assms Cons True
        have "snd z 1 = Some (takeWhile (\<lambda>b. b \<noteq> 10) (a # t))"
          by (auto simp add: m_verdict_rest)
        with takeWhile_newlines [OF nl] True have "snd z 1 = Some [58]" by simp
        with verdict_after_colon_newlines [OF nl] Cons True show ?thesis
          by (simp add: trim_colon)
      qed
    qed
  next
    case False
    then have h: "a # t = [] \<or> hd (a # t) \<noteq> 58" by simp
    from assms Cons False have w: "ws_then_line (Suc (length t)) (a # t) cp = Some z"
      by (simp add: m_verdict_rest)
    show ?thesis
    proof (cases "dropWhile isWhiteSpace (a # t) = []")
      case skip: False
      from ws_then_line_skip [OF skip, of "Suc (length t)" cp] w
      have "snd z 1 = Some (takeWhile (\<lambda>b. b \<noteq> 10) (dropWhile isWhiteSpace (a # t)))"
        by auto
      with verdict_after_skip [OF skip h] Cons show ?thesis by simp
    next
      case blank: True
      then have b: "list_all isWhiteSpace (a # t)"
        unfolding dropWhile_eq_Nil_conv list_all_iff .
      show ?thesis
      proof (cases "list_all (\<lambda>b. b = 10) (a # t)")
        case nl: False
        from ws_then_line_blank [OF b _ nl, of "Suc (length t)" cp]
        obtain z' g where z': "ws_then_line (Suc (length t)) (a # t) cp = Some z'" "snd z' 1 = Some g"
          "list_all isWhiteSpace g" by auto
        with w have "z = z'" by simp
        with z'(2) trim_blank [OF z'(3)] verdict_after_blank [OF blank h] Cons show ?thesis
          by simp
      next
        case nl: True
        from ws_then_line_newlines [OF nl, of "Suc (length t)" cp] w
        show ?thesis by simp
      qed
    qed
  qed
qed

lemma verdict_rest_None:
  assumes "m verdict_rest (s, cp) Some = None"
  shows "list_all (\<lambda>b. b = 10) s \<and> verdict_after s = []"
proof (cases s)
  case Nil
  then show ?thesis by (simp add: verdict_after_def)
next
  case (Cons a t)
  show ?thesis
  proof (cases "a = 58")
    case True
    have "dropWhile isWhiteSpace (a # t) \<noteq> []" using True by simp
    from ws_then_line_skip [OF this, of "Suc (length t)" cp] assms Cons True
    show ?thesis by (simp add: m_verdict_rest split: option.splits)
  next
    case False
    then have h: "a # t = [] \<or> hd (a # t) \<noteq> 58" by simp
    from False assms Cons have n: "ws_then_line (Suc (length t)) (a # t) cp = None"
      by (simp add: m_verdict_rest)
    have blank: "dropWhile isWhiteSpace (a # t) = []"
    proof (rule ccontr)
      assume "dropWhile isWhiteSpace (a # t) \<noteq> []"
      from ws_then_line_skip [OF this, of "Suc (length t)" cp] n show False by simp
    qed
    then have b: "list_all isWhiteSpace (a # t)"
      unfolding dropWhile_eq_Nil_conv list_all_iff .
    have nl: "list_all (\<lambda>b. b = 10) (a # t)"
    proof (rule ccontr)
      assume "\<not> list_all (\<lambda>b. b = 10) (a # t)"
      from ws_then_line_blank [OF b _ this, of "Suc (length t)" cp] n show False by simp
    qed
    with Cons verdict_after_blank [OF blank h] show ?thesis by simp
  qed
qed

lemma m_verdictPattern:
  "m verdictPattern (s, cp) Some =
     (if ci_prefix ''OVERALL VERDICT'' s
      then m verdict_rest (drop (length ''OVERALL VERDICT'') s, cp) Some else None)"
  unfolding verdictPattern_rest m.simps(5) by (simp only: m_lit)

lemma ci_prefix_set:
  assumes "ci_prefix h s" and "b \<in> set (take (length h) s)"
  shows "Canonicalize b \<in> (\<lambda>c. Canonicalize (of_char c)) ` set h"
proof -
  from assms(1) have "map Canonicalize (take (length h) s) = map (\<lambda>c. Canonicalize (of_char c)) h"
    by (simp add: ci_prefix_def ci_equal_def)
  then have "set (map Canonicalize (take (length h) s)) = set (map (\<lambda>c. Canonicalize (of_char c)) h)"
    by simp
  with assms(2) show ?thesis by auto
qed

lemma no_start_no_match:
  assumes "\<forall>b \<in> set s. Canonicalize b \<noteq> 79"
  shows "String_match s verdictPattern = None"
  using assms
proof (induction s)
  case Nil
  have "\<not> ci_prefix ''OVERALL VERDICT'' []" by (simp add: ci_prefix_def)
  then show ?case by (simp add: m_verdictPattern)
next
  case (Cons a s)
  have "\<not> ci_prefix ''OVERALL VERDICT'' (a # s)"
  proof
    assume "ci_prefix ''OVERALL VERDICT'' (a # s)"
    then have "Canonicalize a = 79" by (simp add: ci_prefix_Cons Canonicalize_def)
    with Cons.prems show False by simp
  qed
  with Cons show ?case by (simp add: m_verdictPattern)
qed

lemma header_tail_no_start:
  assumes "ci_prefix ''OVERALL VERDICT'' (a # s)"
    and "list_all (\<lambda>b. b = 10) (drop (length ''OVERALL VERDICT'') (a # s))"
  shows "\<forall>b \<in> set s. Canonicalize b \<noteq> 79"
proof -
  from assms(1) have p: "ci_prefix ''VERALL VERDICT'' s" by (simp add: ci_prefix_Cons)
  have 1: "Canonicalize b \<noteq> 79" if "b \<in> set (take (length ''VERALL VERDICT'') s)" for b
    using ci_prefix_set [OF p that] by (auto simp add: Canonicalize_def)
  from assms(2) have "\<forall>b \<in> set (drop (length ''VERALL VERDICT'') s). b = 10"
    by (simp add: list_all_iff)
  then have 2: "Canonicalize b \<noteq> 79" if "b \<in> set (drop (length ''VERALL VERDICT'') s)" for b
    using that by (auto simp add: Canonicalize_def)
  have "set s = set (take (length ''VERALL VERDICT'') s) \<union> set (drop (length ''VERALL VERDICT'') s)"
    by (metis append_take_drop_id set_append)
  with 1 2 show ?thesis by blast
qed

lemma String_match_verdict:
  "(case String_match str verdictPattern of
      None \<Rightarrow> Inr []
    | Some vm \<Rightarrow> (case group vm 1 of None \<Rightarrow> Inl TypeError | Some g \<Rightarrow> Inr (trim g)))
   = Inr (verdict_spec str)"
proof (induction str)
  case Nil
  have "\<not> ci_prefix ''OVERALL VERDICT'' []" by (simp add: ci_prefix_def)
  then show ?case by (simp add: m_verdictPattern verdict_spec_def)
next
  case (Cons a s)
  show ?case
  proof (cases "ci_prefix ''OVERALL VERDICT'' (a # s)")
    case False
    with Cons show ?thesis by (simp add: m_verdictPattern verdict_spec_def)
  next
    case True
    then have spec: "verdict_spec (a # s) = verdict_after (drop (length ''OVERALL VERDICT'') (a # s))"
      by (simp add: verdict_spec_def)
    show ?thesis
    proof (cases "m verdict_rest (drop (length ''OVERALL VERDICT'') (a # s), Map.empty) Some")
      case None
      from verdict_rest_None [OF None]
      have nl: "list_all (\<lambda>b. b = 10) (drop (length ''OVERALL VERDICT'') (a # s))"
        and v: "verdict_after (drop (length ''OVERALL VERDICT'') (a # s)) = []"
        by simp_all
      from no_start_no_match [OF header_tail_no_start [OF True nl]]
      have "String_match s verdictPattern = None" .
      with None True show ?thesis unfolding spec v by (simp add: m_verdictPattern)
    next
      case (Some z)
      from verdict_rest_Some [OF Some] obtain g where "snd z 1 = Some g"
        "trim g = verdict_after (drop (length ''OVERALL VERDICT'') (a # s))" by blast
      with Some True show ?thesis unfolding spec by (simp add: m_verdictPattern)
    qed
  qed
qed

lemma extractHealthRating_unfold:
  "extractHealthRating str =
     (case String_match str ratingPattern of
        None \<Rightarrow> Inr None
      | Some rm \<Rightarrow>
          Inr (Some \<lparr>score = (case group rm 1 of Some g \<Rightarrow> parseFloat g | None \<Rightarrow> NaN),
                     verdict = verdict_spec str\<rparr>))"
proof (cases "String_match str ratingPattern")
  case None
  then show ?thesis by (simp add: extractHealthRating_def)
next
  case (Some rm)
  show ?thesis
  proof (cases "String_match str verdictPattern")
    case None
    with String_match_verdict [of str] Some show ?thesis
      by (simp add: extractHealthRating_def)
  next
    case vm: (Some vm)
    with String_match_verdict [of str] Some show ?thesis
      by (cases "group vm 1") (simp_all add: extractHealthRating_def)
  qed
qed

subsection \<open>The leftmost rating and the line of the verdict\<close>

lemma String_match_first:
  "String_match str r = Some mt \<Longrightarrow>
   \<exists>pre rest y. str = pre @ rest \<and> m r (rest, Map.empty) Some = Some y \<and> group mt = snd y \<and>
     (\<forall>pre' rest'. str = pre' @ rest' \<and> length pre' < length pre \<longrightarrow>
        m r (rest', Map.empty) Some = None)"
proof (induction str)
  case Nil
  then obtain y where y: "m r ([], Map.empty) Some = Some y" "group mt = snd y"
    by (auto split: option.splits)
  then show ?case by (intro exI [of _ "[]"] exI [of _ y]) simp
next
  case (Cons a s)
  show ?case
  proof (cases "m r (a # s, Map.empty) Some")
    case None
    with Cons.prems have "String_match s r = Some mt" by simp
    from Cons.IH [OF this] obtain pre rest y where i: "s = pre @ rest"
      "m r (rest, Map.empty) Some = Some y" "group mt = snd y"
      "\<forall>pre' rest'. s = pre' @ rest' \<and> length pre' < length pre \<longrightarrow>
        m r (rest', Map.empty) Some = None" by blast
    have "\<forall>pre' rest'. a # s = pre' @ rest' \<and> length pre' < length (a # pre) \<longrightarrow>
        m r (rest', Map.empty) Some = None"
    proof (intro allI impI)
      fix pre' rest'
      assume h: "a # s = pre' @ rest' \<and> length pre' < length (a # pre)"
      show "m r (rest', Map.empty) Some = None"
      proof (cases pre')
        case Nil
        with h None show ?thesis by simp
      next
        case (Cons b p)
        with h have "s = p @ rest'" "length p < length pre" by simp_all
        with i(4) show ?thesis by blast
      qed
    qed
    moreover from i(1) have "a # s = (a # pre) @ rest" by simp
    ultimately show ?thesis using i(2,3) by blast
  next
    case (Some y)
    with Cons.prems have g: "group mt = snd y" by auto
    with Some show ?thesis by (intro exI [of _ "[]"] exI [of _ "a # s"] exI [of _ y]) simp
  qed
qed

lemma rating_match_head:
  assumes "rating_match s n p"
  shows "\<exists>a t. s = a # t \<and> Canonicalize a = 82"
proof -
  from assms obtain word rest where w: "s = word @ rest" "ci_equal ''Rating'' word"
    unfolding rating_match_def by blast
  from w(2) obtain a t where "word = a # t" "Canonicalize a = Canonicalize (of_char CHR ''R'')"
    by (auto simp add: ci_equal_Cons)
  with w(1) show ?thesis by (simp add: Canonicalize_def)
qed

lemma rating_match_sem:
  assumes "rating_match s n p"
  shows "sem ratingPattern (s, Map.empty) (p, [1 \<mapsto> n])"
proof -
  from assms have "sem rating_core (s, Map.empty) (p, [1 \<mapsto> n])"
    unfolding sem_rating_core by (intro exI [of _ n]) simp
  then show ?thesis
    unfolding sem_ratingPattern by (intro exI [of _ "[]"] exI [of _ s]) simp
qed

lemma health_no_R:
  assumes "ci_equal ''Health'' u" and "a \<in> set u"
  shows "Canonicalize a \<noteq> 82"
proof -
  from assms(1) have "map Canonicalize u = map (\<lambda>c. Canonicalize (of_char c)) ''Health''"
    by (simp add: ci_equal_def)
  then have "set (map Canonicalize u) = set (map (\<lambda>c. Canonicalize (of_char c)) ''Health'')"
    by simp
  with assms(2) have "Canonicalize a \<in> (\<lambda>c. Canonicalize (of_char c)) ` set ''Health''" by auto
  then show ?thesis by (auto simp add: Canonicalize_def)
qed

lemma blank_no_R: "isWhiteSpace a \<Longrightarrow> Canonicalize a \<noteq> 82"
  by (auto simp add: isWhiteSpace_def Canonicalize_def word_le_nat_alt)


lemma rating_Some_first:
  assumes "String_match str ratingPattern = Some mt"
  shows "\<exists>pre s num post. str = pre @ s \<and> rating_match s num post \<and> group mt 1 = Some num \<and>
           (\<forall>pre' s' n p. str = pre' @ s' \<and> length pre' < length pre \<longrightarrow> \<not> rating_match s' n p)"
proof -
  from String_match_first [OF assms] obtain pre rest y
    where r: "str = pre @ rest" "m ratingPattern (rest, Map.empty) Some = Some y"
      "group mt = snd y"
      and first: "\<And>pre' rest'. str = pre' @ rest' \<Longrightarrow> length pre' < length pre \<Longrightarrow>
        m ratingPattern (rest', Map.empty) Some = None" by blast
  from m_sound [OF r(2)] have "sem ratingPattern (rest, Map.empty) y" by auto
  then obtain w s' where w: "rest = w @ s'"
      "w = [] \<or> (\<exists>u v. w = u @ v \<and> ci_equal ''Health'' u \<and> v \<noteq> [] \<and> list_all (in_class [CWs]) v)"
      "sem rating_core (s', Map.empty) y"
    unfolding sem_ratingPattern by blast
  from w(3) obtain num where n: "rating_match s' num (fst y)" "snd y = [1 \<mapsto> num]"
    unfolding sem_rating_core by blast
  have noR: "Canonicalize a \<noteq> 82" if "a \<in> set w" for a
  proof -
    from that w(2) obtain u v where uv: "w = u @ v" "ci_equal ''Health'' u" "list_all (in_class [CWs]) v"
      by auto
    from uv(3) have "list_all isWhiteSpace v" by simp
    with that uv(1) have "a \<in> set u \<or> isWhiteSpace a" by (auto simp add: list_all_iff)
    with health_no_R [OF uv(2)] blank_no_R show ?thesis by blast
  qed
  have "\<not> rating_match s2 n2 p2" if h: "str = pre2 @ s2" "length pre2 < length (pre @ w)"
    for pre2 s2 n2 p2
  proof
    assume rm: "rating_match s2 n2 p2"
    show False
    proof (cases "length pre2 < length pre")
      case True
      from first [OF h(1) True] have "m ratingPattern (s2, Map.empty) Some = None" .
      from m_complete [OF no_lookahead_ratingPattern rating_match_sem [OF rm] this]
      show False by simp
    next
      case False
      define j where "j = length pre2 - length pre"
      from False h(2) have j: "j < length w" "length pre2 = length pre + j" by (simp_all add: j_def)
      from h(1) r(1) w(1) have "pre2 @ s2 = pre @ w @ s'" by simp
      then have "drop (length pre2) (pre2 @ s2) = drop (length pre2) (pre @ w @ s')" by simp
      with j have s2: "s2 = drop j w @ s'" by simp
      from rating_match_head [OF rm] obtain a t where at: "s2 = a # t" "Canonicalize a = 82" by blast
      from j(1) have "drop j w \<noteq> []" by simp
      with s2 at(1) have "a = hd (drop j w)" by (cases "drop j w") simp_all
      with j(1) have "a \<in> set w" by (simp add: hd_drop_conv_nth)
      from noR [OF this] at(2) show False by simp
    qed
  qed
  moreover from r(1) w(1) have "str = (pre @ w) @ s'" by simp
  moreover from r(3) n(2) have "group mt 1 = Some num" by simp
  ultimately show ?thesis using n(1) by blast
qed

lemma prefix_run_unique:
  assumes "xs @ ys = xs' @ ys'"
    and "list_all P xs" and "list_all P xs'"
    and "ys = [] \<or> \<not> P (hd ys)" and "ys' = [] \<or> \<not> P (hd ys')"
  shows "xs = xs' \<and> ys = ys'"
proof -
  have t: "takeWhile P (us @ vs) = us" if "list_all P us" "vs = [] \<or> \<not> P (hd vs)" for us vs
    using that by (cases vs) (simp_all add: list_all_iff takeWhile_tail)
  from t [OF assms(2,4)] t [OF assms(3,5)] assms(1) have "xs = xs'" by simp
  with assms(1) show ?thesis by simp
qed


lemma tail_head:
  assumes "list_all isWhiteSpace ws"
  shows "\<not> isDigit (hd (ws @ 47 # r))" and "hd (ws @ 47 # r) \<noteq> 46"
proof -
  have "isWhiteSpace (hd (ws @ 47 # r)) \<or> hd (ws @ 47 # r) = 47"
    using assms by (cases ws) simp_all
  then show "\<not> isDigit (hd (ws @ 47 # r))" and "hd (ws @ 47 # r) \<noteq> 46"
    using not_isWhiteSpace_digit [of "hd (ws @ 47 # r)"]
    by (auto simp add: isDigit_def isWhiteSpace_def)
qed

lemma decimal_literal_unique:
  assumes "decimal_literal ip fp num" and "decimal_literal ip' fp' num'"
    and "list_all isWhiteSpace ws" and "list_all isWhiteSpace ws'"
    and "num @ ws @ 47 # r = num' @ ws' @ 47 # r'"
  shows "num = num'"
proof -
  define Y where "Y = (if fp = [] then [] else 46 # fp) @ ws @ 47 # r"
  define Y' where "Y' = (if fp' = [] then [] else 46 # fp') @ ws' @ 47 # r'"
  from assms(1) have d: "ip \<noteq> []" "list_all isDigit ip" "list_all isDigit fp"
      "num = ip @ (if fp = [] then [] else 46 # fp)"
    by (simp_all add: decimal_literal_def js_def)
  from assms(2) have d': "ip' \<noteq> []" "list_all isDigit ip'" "list_all isDigit fp'"
      "num' = ip' @ (if fp' = [] then [] else 46 # fp')"
    by (simp_all add: decimal_literal_def js_def)
  have hY: "\<not> isDigit (hd Y)" using tail_head(1) [OF assms(3), of r] by (simp add: Y_def)
  have hY': "\<not> isDigit (hd Y')" using tail_head(1) [OF assms(4), of r'] by (simp add: Y'_def)
  from assms(5) d(4) d'(4) have "ip @ Y = ip' @ Y'" by (simp add: Y_def Y'_def)
  from prefix_run_unique [OF this d(2) d'(2)] hY hY' have e: "ip = ip'" "Y = Y'" by simp_all
  show ?thesis
  proof (cases "fp = []")
    case True
    have "fp' = []"
    proof (rule ccontr)
      assume "fp' \<noteq> []"
      with True e(2) have "hd (ws @ 47 # r) = 46" by (simp add: Y_def Y'_def)
      with tail_head(2) [OF assms(3), of r] show False by simp
    qed
    with True d(4) d'(4) e(1) show ?thesis by simp
  next
    case False
    have f': "fp' \<noteq> []"
    proof
      assume "fp' = []"
      with False e(2) have "hd (ws' @ 47 # r') = 46" by (simp add: Y_def Y'_def) (metis list.sel(1))
      with tail_head(2) [OF assms(4), of r'] show False by simp
    qed
    with False e(2) have "fp @ ws @ 47 # r = fp' @ ws' @ 47 # r'" by (simp add: Y_def Y'_def)
    from prefix_run_unique [OF this d(3) d'(3)] tail_head(1) [OF assms(3), of r]
      tail_head(1) [OF assms(4), of r']
    have "fp = fp'" by simp
    with False f' d(4) d'(4) e(1) show ?thesis by simp
  qed
qed

lemma ci_equal_length: "ci_equal h w \<Longrightarrow> length w = length h"
  unfolding ci_equal_def by (metis length_map)

lemma rating_match_unique:
  assumes "rating_match s n p" and "rating_match s n' p'"
  shows "n = n'"
proof -
  let ?P = "\<lambda>x. x = of_char CHR '':'' \<or> isWhiteSpace x"
  from assms(1) obtain word sep ip fp ws1 ws2
    where a: "s = word @ sep @ n @ ws1 @ js ''/'' @ ws2 @ js ''10'' @ p"
      "ci_equal ''Rating'' word" "list_all ?P sep"
      "decimal_literal ip fp n" "list_all isWhiteSpace ws1"
    unfolding rating_match_def by blast
  from assms(2) obtain word' sep' ip' fp' ws1' ws2'
    where b: "s = word' @ sep' @ n' @ ws1' @ js ''/'' @ ws2' @ js ''10'' @ p'"
      "ci_equal ''Rating'' word'" "list_all ?P sep'"
      "decimal_literal ip' fp' n'" "list_all isWhiteSpace ws1'"
    unfolding rating_match_def by blast
  let ?X = "n @ ws1 @ 47 # ws2 @ js ''10'' @ p"
  let ?X' = "n' @ ws1' @ 47 # ws2' @ js ''10'' @ p'"
  from ci_equal_length [OF a(2)] ci_equal_length [OF b(2)] have "length word = length word'" by simp
  with a(1) b(1) have x: "sep @ ?X = sep' @ ?X'" by (simp add: js_def)
  have h: "\<not> ?P (hd (m @ t))" if "decimal_literal i f m" for i f m t
  proof -
    from that obtain c u where "m = c # u" "isDigit c"
      by (cases i) (auto simp add: decimal_literal_def split: if_splits)
    with not_isWhiteSpace_digit [of c] show ?thesis by (auto simp add: isDigit_def)
  qed
  from prefix_run_unique [OF x a(3) b(3)] h [OF a(4)] h [OF b(4)] have "?X = ?X'" by simp
  from decimal_literal_unique [OF a(4) b(4) a(5) b(5) this] show ?thesis .
qed


lemma verdict_after_skip_colon:
  "verdict_after r =
     (if dropWhile isWhiteSpace (skip_colon r) \<noteq> [] then line_after r
      else if colon_then_breaks r then js '':'' else [])"
  by (cases r) (simp_all add: verdict_after_def line_after_def skip_colon_def colon_then_breaks_def)

lemma verdict_after_line:
  assumes "\<not> colon_then_breaks r"
  shows "verdict_after r = line_after r"
proof (cases "dropWhile isWhiteSpace (skip_colon r) = []")
  case True
  have "line_after r = []" unfolding line_after_def True by simp
  with True assms show ?thesis unfolding verdict_after_skip_colon by simp
next
  case False
  then show ?thesis unfolding verdict_after_skip_colon by simp
qed

section \<open>The properties of the specification\<close>

lemmas regex_eval =
  js_def char_matcher_def Canonicalize_def isWhiteSpace_def isDigit_def in_class_def lit_def
  lookahead_def nextHeader_def section_regex_def ratingPattern_def verdictPattern_def trim_def

lemmas number_eval = parseFloat_def unsigned_literal_def exponent_part_def digits_value_def
  binary64_def floor_log2_def shifted_def bit_length.simps round_half_even_def pow2_def Let_def

text \<open>
  C1. \<^verbatim>\<open>parseAnalysisText\<close> splits the text by its fixed sequence of patterns. A named
  section is absent from the result exactly when its pattern does not match the text
  or the text captured by the pattern is empty after trimming; a section that is present
  carries the trimmed capture as its content.
\<close>

theorem parseAnalysisText_section_absent:
  assumes "p \<in> set sectionPatterns"
  shows "(title p \<notin> title ` set (parseAnalysisText text) \<longleftrightarrow>
            String_match text (pattern p) = None \<or>
            (\<exists>mt g. String_match text (pattern p) = Some mt \<and> group mt 1 = Some g \<and> trim g = [])) \<and>
         (s \<in> set (parseAnalysisText text) \<and> title s = title p \<longleftrightarrow>
            (\<exists>mt g. String_match text (pattern p) = Some mt \<and> group mt 1 = Some g \<and> trim g \<noteq> [] \<and>
               s = \<lparr>title = title p, icon = icon p, color = color p, content = trim g\<rparr>))"
proof -
  from assms obtain h where h: "pattern p = section_regex h" using sectionPatterns_regex by blast
  have present: "s \<in> set (parseAnalysisText text) \<and> title s = title p \<longleftrightarrow> section_of text p = Some s" for s
  proof
    assume a: "s \<in> set (parseAnalysisText text) \<and> title s = title p"
    then obtain q where q: "q \<in> set sectionPatterns" "section_of text q = Some s"
      by (auto simp add: in_parseAnalysisText)
    from section_of_title [OF q(2)] a have "title q = title p" by simp
    from sectionPatterns_inj [OF q(1) assms this] q(2) show "section_of text p = Some s" by simp
  next
    assume "section_of text p = Some s"
    with assms section_of_title [of "text" p s]
    show "s \<in> set (parseAnalysisText text) \<and> title s = title p"
      by (auto simp add: in_parseAnalysisText)
  qed
  have "title p \<notin> title ` set (parseAnalysisText text) \<longleftrightarrow> section_of text p = None"
  proof
    assume a: "title p \<notin> title ` set (parseAnalysisText text)"
    show "section_of text p = None"
    proof (cases "section_of text p")
      case (Some s)
      with present [of s] a show ?thesis by force
    qed simp
  next
    assume a: "section_of text p = None"
    show "title p \<notin> title ` set (parseAnalysisText text)"
    proof
      assume "title p \<in> title ` set (parseAnalysisText text)"
      then obtain s where "s \<in> set (parseAnalysisText text)" "title s = title p" by auto
      with present [of s] a show False by simp
    qed
  qed
  with present [of s] section_of_Some_iff [OF h, of "text" s] section_of_None_iff [OF h, of "text"]
  show ?thesis by simp
qed

text \<open>
  The theorem at the first pattern and the text \<^verbatim>\<open>SUMMARY: Good\<close>: the section is there
  and holds \<^verbatim>\<open>Good\<close>.
\<close>

theorem parseAnalysisText_section_absent_witness:
  "hd sectionPatterns \<in> set sectionPatterns \<and>
   \<lparr>title = js ''Summary'', icon = Some ''Award'', color = Some ''purple'', content = js ''Good''\<rparr>
     \<in> set (parseAnalysisText (js ''SUMMARY: Good'')) \<and>
   title (hd sectionPatterns) \<in> title ` set (parseAnalysisText (js ''SUMMARY: Good''))"
  using parseAnalysisText_section_absent [of "hd sectionPatterns" "js ''SUMMARY: Good''"
      "\<lparr>title = js ''Summary'', icon = Some ''Award'', color = Some ''purple'', content = js ''Good''\<rparr>"]
  by (simp add: sectionPatterns_def section_of_def parseAnalysisText_def regex_eval)

text \<open>
  The claim as first stated fails on the text \<^verbatim>\<open>SUMMARY:\<close>: the pattern of the summary
  matches it, with an empty capture, and the result has no section.
\<close>

theorem parseAnalysisText_empty_capture_counterexample:
  "pattern (hd sectionPatterns) = section_regex ''SUMMARY'' \<and>
   String_match (js ''SUMMARY:'') (section_regex ''SUMMARY'') \<noteq> None \<and>
   parseAnalysisText (js ''SUMMARY:'') = []"
  by (simp add: sectionPatterns_def section_of_def parseAnalysisText_def regex_eval)

text \<open>
  C2. The sections that \<^verbatim>\<open>parseAnalysisText\<close> returns appear in the order of the patterns:
  Summary, Key Risks, Positive Highlights, Recommendation, Marketing Traps, whatever the
  order of the headers in the text.
\<close>

theorem parseAnalysisText_order:
  "subseq (map title (parseAnalysisText text))
     [js ''Summary'', js ''Key Risks'', js ''Positive Highlights'', js ''Recommendation'',
      js ''Marketing Traps'']"
  using subseq_map_filter [of "section_of text" title title sectionPatterns] section_of_title
  by (simp add: parseAnalysisText_map_filter sectionPatterns_titles)

text \<open>A text with the recommendation before the summary: the summary still comes first.\<close>

theorem parseAnalysisText_order_witness:
  "map title (parseAnalysisText (js ''RECOMMENDATION: eat'' @ [10] @ js ''SUMMARY: good'')) =
     [js ''Summary'', js ''Recommendation''] \<and>
   subseq [js ''Summary'', js ''Recommendation'']
     [js ''Summary'', js ''Key Risks'', js ''Positive Highlights'', js ''Recommendation'',
      js ''Marketing Traps'']"
proof -
  have e: "map title (parseAnalysisText (js ''RECOMMENDATION: eat'' @ [10] @ js ''SUMMARY: good'')) =
     [js ''Summary'', js ''Recommendation'']"
    by (simp add: sectionPatterns_def section_of_def parseAnalysisText_def regex_eval)
  from parseAnalysisText_order [of "js ''RECOMMENDATION: eat'' @ [10] @ js ''SUMMARY: good''"]
  show ?thesis unfolding e by (simp add: e)
qed

text \<open>
  C3. When the request for \<^verbatim>\<open>/api/v1/product/{id}\<close> is answered with a response that is
  not ok (a 404, say), the ingredients page sets the error and, being mounted, shows the
  panel "Error Loading Ingredients" instead of the ingredients.
\<close>

theorem IngredientsPage_non_ok:
  assumes "param_truthy params_id"
    and "truthy_entry (cache ss) (id_text (param_id params_id)) = None"
    and "fetch rt (product_request rt params_id) = Responded res"
    and "\<not> ok res"
  shows "error (state (IngredientsPage_effect rt params_id mounted ss st))
           = Some (js ''Failed to fetch ingredients'') \<and>
         requests (IngredientsPage_effect rt params_id mounted ss st)
           = [product_request rt params_id] \<and>
         (mounted \<longrightarrow>
            IngredientsPage_render (state (IngredientsPage_effect rt params_id mounted ss st))
              = ErrorLoadingIngredients (js ''Failed to fetch ingredients''))"
  using assms
  by (simp add: IngredientsPage_effect_def product_request_def Let_def fetch_failed_def
      IngredientsPage_render_def truthy_str_def js_def)

theorem IngredientsPage_non_ok_witness:
  "param_truthy (Single (js ''42'')) \<and>
   \<not> ok \<lparr>status = 404, json = Inr (JObj [])\<rparr> \<and>
   url (product_request (browser (Responded \<lparr>status = 404, json = Inr (JObj [])\<rparr>)) (Single (js ''42'')))
     = js ''/api/v1/product/42'' \<and>
   IngredientsPage_render (state (IngredientsPage_effect
       (browser (Responded \<lparr>status = 404, json = Inr (JObj [])\<rparr>))
       (Single (js ''42'')) True empty_Session initial_IngredientsState))
     = ErrorLoadingIngredients (js ''Failed to fetch ingredients'')"
  using IngredientsPage_non_ok [of "Single (js ''42'')" empty_Session
      "browser (Responded \<lparr>status = 404, json = Inr (JObj [])\<rparr>)"
      "\<lparr>status = 404, json = Inr (JObj [])\<rparr>" True initial_IngredientsState]
  by (simp add: browser_def truthy_entry_def ok_def js_def empty_Session_def product_request_def
      getApiUrl_def getBaseUrl_def id_text_def)







text \<open>
  C6. \<^verbatim>\<open>getApiUrl\<close> builds the routes of the REST interface: the base URL followed by the
  template of the endpoint and, when a non-empty path is given, by a slash and the path;
  with an empty path, as with none, the URL ends with the template. So \<^verbatim>\<open>SEARCH\<close>,
  \<^verbatim>\<open>OCR\<close> and \<^verbatim>\<open>BARCODE\<close> end in \<^verbatim>\<open>/api/v1/search\<close>, \<^verbatim>\<open>/api/v1/ocr\<close> and
  \<^verbatim>\<open>/api/v1/barcode\<close>, \<^verbatim>\<open>PRODUCT\<close> and \<^verbatim>\<open>ANALYZE\<close> with an id end in
  \<^verbatim>\<open>/api/v1/product/{id}\<close> and \<^verbatim>\<open>/api/v1/analyze/product/{id}\<close>, and the analysis page
  sends its request to the latter with the method POST.
\<close>

theorem getApiUrl_routes:
  "getApiUrl env SEARCH None = getBaseUrl env @ js ''/api/v1/search'' \<and>
   getApiUrl env OCR None = getBaseUrl env @ js ''/api/v1/ocr'' \<and>
   getApiUrl env BARCODE None = getBaseUrl env @ js ''/api/v1/barcode'' \<and>
   (p \<noteq> [] \<longrightarrow>
      getApiUrl env PRODUCT (Some p) = getBaseUrl env @ js ''/api/v1/product/'' @ p \<and>
      getApiUrl env ANALYZE (Some p) = getBaseUrl env @ js ''/api/v1/analyze/product/'' @ p \<and>
      getApiUrl env e (Some p) = getBaseUrl env @ ENDPOINTS e @ js ''/'' @ p) \<and>
   getApiUrl env e None = getBaseUrl env @ ENDPOINTS e \<and>
   getApiUrl env e (Some []) = getBaseUrl env @ ENDPOINTS e \<and>
   (param_truthy params_id \<and> \<not> snd (tryUseCache (id_text (param_id params_id)) ss sa) \<longrightarrow>
      requests (AnalysisPage_effect rt params_id mounted ss sa) =
        [\<lparr>url = getApiUrl rt ANALYZE (Some (id_text (param_id params_id))), http_method = POST\<rparr>])"
proof -
  have "requests (AnalysisPage_effect rt params_id mounted ss sa) =
        [\<lparr>url = getApiUrl rt ANALYZE (Some (id_text (param_id params_id))), http_method = POST\<rparr>]"
    if "param_truthy params_id" "\<not> snd (tryUseCache (id_text (param_id params_id)) ss sa)"
    using that(1) tryUseCache_miss [OF that(2)]
    by (simp add: AnalysisPage_effect_def Let_def
        split: fetch_outcome.splits sum.splits option.splits jsvalue.splits)
  then show ?thesis by (simp add: getApiUrl_unfold js_def)
qed

theorem getApiUrl_routes_witness:
  "js ''8901058851441'' \<noteq> [] \<and>
   getApiUrl (browser Pending) PRODUCT (Some (js ''8901058851441''))
     = js ''/api/v1/product/8901058851441'' \<and>
   getApiUrl (browser Pending) ANALYZE (Some (js ''8901058851441''))
     = js ''/api/v1/analyze/product/8901058851441'' \<and>
   param_truthy (Single (js ''8901058851441'')) \<and>
   requests (AnalysisPage_effect (browser Pending) (Single (js ''8901058851441'')) True
       empty_Session initial_AnalysisState)
     = [\<lparr>url = js ''/api/v1/analyze/product/8901058851441'', http_method = POST\<rparr>]"
  using getApiUrl_routes [where env = "browser Pending" and p = "js ''8901058851441''"
      and e = PRODUCT and params_id = "Single (js ''8901058851441'')" and ss = empty_Session
      and sa = initial_AnalysisState and rt = "browser Pending" and mounted = True]
  by (simp add: getBaseUrl_def js_def browser_def tryUseCache_def empty_Session_def
      truthy_entry_def id_text_def)

text \<open>
  The claim as first stated fails for the empty path: it is a path that is given, and no
  slash follows the template.
\<close>

theorem getApiUrl_empty_path_counterexample:
  "getApiUrl (browser Pending) PRODUCT (Some []) = js ''/api/v1/product'' \<and>
   getBaseUrl (browser Pending) @ ENDPOINTS PRODUCT @ js ''/'' @ [] = js ''/api/v1/product/'' \<and>
   js ''/api/v1/product'' \<noteq> js ''/api/v1/product/''"
  by (simp add: getApiUrl_def getBaseUrl_def js_def browser_def)

text \<open>
  C7. A \<^verbatim>\<open>Product\<close> carries exactly a name, a brand, an id and an image URL (the fields
  \<^verbatim>\<open>product_name\<close>, \<^verbatim>\<open>brand\<close>, \<^verbatim>\<open>id\<close>, \<^verbatim>\<open>image_url\<close>): the four fields make up the
  product, and two products with the same four fields are the same. An
  \<^verbatim>\<open>AnalysisResponse\<close> carries, besides the name of the product, the list of strings
  \<^verbatim>\<open>analysis_sections\<close>.
\<close>

theorem data_model_fields:
  fixes p q :: Product and r :: AnalysisResponse and xs :: "jsstring list"
  shows "p = \<lparr>product_name = product_name p, brand = brand p, id' = id' p, image_url = image_url p\<rparr> \<and>
     (p = q \<longleftrightarrow>
        product_name p = product_name q \<and> brand p = brand q \<and> id' p = id' q \<and> image_url p = image_url q) \<and>
     Product_value p =
       JObj [(js ''product_name'', JStr (product_name p)), (js ''brand'', JStr (brand p)),
             (js ''id'', JStr (id' p)), (js ''image_url'', JStr (image_url p))] \<and>
     r = \<lparr>product_name = product_name r, analysis_sections = analysis_sections r\<rparr> \<and>
     analysis_sections (r\<lparr>analysis_sections := xs\<rparr>) = xs"
  by (cases p, cases q, cases r) (auto simp add: Product_value_def)

text \<open>
  C8. For a query that is empty once trimmed, \<^verbatim>\<open>handleSearch\<close> returns at once: it sends
  no request and leaves the whole state as it was, \<^verbatim>\<open>searchResults\<close>, \<^verbatim>\<open>loading\<close>,
  \<^verbatim>\<open>hasSearched\<close> and \<^verbatim>\<open>lastSearchType\<close> included.
\<close>

theorem handleSearch_blank_query:
  "trim query = [] \<Longrightarrow>
   handleSearch rt query ss st = \<lparr>state = st, session = ss, requests = [], settled = True\<rparr>"
  by (simp add: handleSearch_def)

text \<open>A query of three blanks.\<close>

theorem handleSearch_blank_query_witness:
  "trim (js ''   '') = [] \<and>
   handleSearch (browser Pending) (js ''   '') empty_Session initial_HomeState =
     \<lparr>state = initial_HomeState, session = empty_Session, requests = [], settled = True\<rparr>"
  using handleSearch_blank_query [of "js ''   ''" "browser Pending" empty_Session initial_HomeState]
  by (simp add: trim_def js_def isWhiteSpace_def)

text \<open>
  C9. \<^verbatim>\<open>handleBarcodeSearch\<close> leaves a list of at most one result. The list holds exactly
  one product when the response is ok and its body has a truthy \<^verbatim>\<open>product_name\<close> and a
  truthy \<^verbatim>\<open>id\<close> (an empty string, zero, \<^verbatim>\<open>false\<close> and \<^verbatim>\<open>null\<close> are not truthy); the brand
  is \<^verbatim>\<open>Unknown Brand\<close> and the image URL is empty when the body has them missing or not
  truthy. In every other case (a response that is not ok, a body that is not JSON or not
  such an object, a rejected request, a timeout) the list is empty.
\<close>

theorem handleBarcodeSearch_results:
  "(\<exists>xs. searchResults (state (handleBarcodeSearch rt barcode ss st)) = JArr xs \<and> length xs \<le> 1) \<and>
   (fetch rt (barcode_request rt barcode) = Responded res \<and> ok res \<and> json res = Inr (JObj kvs) \<and>
    map_of kvs (js ''product_name'') = Some name \<and> truthy name \<and>
    map_of kvs (js ''id'') = Some ident \<and> truthy ident \<longrightarrow>
      searchResults (state (handleBarcodeSearch rt barcode ss st)) =
        JArr [JObj [(js ''product_name'', name),
                    (js ''brand'', or_else (map_of kvs (js ''brand'')) (JStr (js ''Unknown Brand''))),
                    (js ''id'', ident),
                    (js ''image_url'', or_else (map_of kvs (js ''image_url'')) (JStr []))]]) \<and>
   (\<not> (\<exists>res kvs name ident.
          fetch rt (barcode_request rt barcode) = Responded res \<and> ok res \<and>
          json res = Inr (JObj kvs) \<and> map_of kvs (js ''product_name'') = Some name \<and> truthy name \<and>
          map_of kvs (js ''id'') = Some ident \<and> truthy ident) \<longrightarrow>
      searchResults (state (handleBarcodeSearch rt barcode ss st)) = JArr []) \<and>
   requests (handleBarcodeSearch rt barcode ss st) = [barcode_request rt barcode] \<and>
   \<not> loading (state (handleBarcodeSearch rt barcode ss st))"
proof -
  have one: "\<exists>xs. searchResults (state (handleBarcodeSearch rt barcode ss st)) = JArr xs \<and> length xs \<le> 1"
    using handleBarcodeSearch_cases [of rt barcode ss st] by auto
  have hit: "searchResults (state (handleBarcodeSearch rt barcode ss st)) =
        JArr [JObj [(js ''product_name'', name),
                    (js ''brand'', or_else (map_of kvs (js ''brand'')) (JStr (js ''Unknown Brand''))),
                    (js ''id'', ident),
                    (js ''image_url'', or_else (map_of kvs (js ''image_url'')) (JStr []))]]"
    if "fetch rt (barcode_request rt barcode) = Responded res" "ok res" "json res = Inr (JObj kvs)"
      "map_of kvs (js ''product_name'') = Some name" "truthy name"
      "map_of kvs (js ''id'') = Some ident" "truthy ident"
    using handleBarcodeSearch_hit [OF that] .
  have miss: "searchResults (state (handleBarcodeSearch rt barcode ss st)) = JArr []"
    if "\<not> (\<exists>res kvs name ident.
          fetch rt (barcode_request rt barcode) = Responded res \<and> ok res \<and>
          json res = Inr (JObj kvs) \<and> map_of kvs (js ''product_name'') = Some name \<and> truthy name \<and>
          map_of kvs (js ''id'') = Some ident \<and> truthy ident)"
    using handleBarcodeSearch_cases [of rt barcode ss st] that by blast
  have rest: "requests (handleBarcodeSearch rt barcode ss st) = [barcode_request rt barcode] \<and>
      \<not> loading (state (handleBarcodeSearch rt barcode ss st))"
    by (simp add: handleBarcodeSearch_def barcode_request_def Let_def search_failed_def
        split: fetch_outcome.splits sum.splits option.splits prod.splits)
  from one hit miss rest show ?thesis by blast
qed

text \<open>
  A body with a name and an id and nothing else: the one product has the brand
  \<^verbatim>\<open>Unknown Brand\<close> and no image, and it is a \<^verbatim>\<open>Product\<close>.
\<close>

theorem handleBarcodeSearch_results_witness:
  "ok \<lparr>status = 200, json = Inr (JObj [(js ''product_name'', JStr (js ''Maggi'')),
                                         (js ''id'', JStr (js ''8901058851441''))])\<rparr> \<and>
   searchResults (state (handleBarcodeSearch
      (browser (Responded \<lparr>status = 200,
          json = Inr (JObj [(js ''product_name'', JStr (js ''Maggi'')),
                            (js ''id'', JStr (js ''8901058851441''))])\<rparr>))
      (js ''8901058851441'') empty_Session initial_HomeState)) =
     JArr [Product_value \<lparr>product_name = js ''Maggi'', brand = js ''Unknown Brand'',
                          id' = js ''8901058851441'', image_url = []\<rparr>] \<and>
   searchResults (state (handleBarcodeSearch (browser Pending)
      (js ''8901058851441'') empty_Session initial_HomeState)) = JArr []"
  using handleBarcodeSearch_results [where rt = "browser (Responded \<lparr>status = 200,
          json = Inr (JObj [(js ''product_name'', JStr (js ''Maggi'')),
                            (js ''id'', JStr (js ''8901058851441''))])\<rparr>)"
      and barcode = "js ''8901058851441''" and ss = empty_Session and st = initial_HomeState
      and res = "\<lparr>status = 200,
          json = Inr (JObj [(js ''product_name'', JStr (js ''Maggi'')),
                            (js ''id'', JStr (js ''8901058851441''))])\<rparr>"
      and kvs = "[(js ''product_name'', JStr (js ''Maggi'')), (js ''id'', JStr (js ''8901058851441''))]"
      and name = "JStr (js ''Maggi'')" and ident = "JStr (js ''8901058851441'')"]
    handleBarcodeSearch_results [where rt = "browser Pending"
      and barcode = "js ''8901058851441''" and ss = empty_Session and st = initial_HomeState]
  by (simp add: browser_def ok_def js_def or_else_def Product_value_def)

text \<open>
  The claim as first stated fails for a body whose \<^verbatim>\<open>product_name\<close> is the empty string:
  the response is ok and has both properties, and the list is empty.
\<close>

theorem handleBarcodeSearch_empty_name_counterexample:
  "ok \<lparr>status = 200, json = Inr (JObj [(js ''product_name'', JStr []),
                                         (js ''id'', JStr (js ''8901058851441''))])\<rparr> \<and>
   get_prop (JObj [(js ''product_name'', JStr []), (js ''id'', JStr (js ''8901058851441''))])
     (js ''product_name'') = Inr (Some (JStr [])) \<and>
   get_prop (JObj [(js ''product_name'', JStr []), (js ''id'', JStr (js ''8901058851441''))])
     (js ''id'') = Inr (Some (JStr (js ''8901058851441''))) \<and>
   searchResults (state (handleBarcodeSearch
      (browser (Responded \<lparr>status = 200,
          json = Inr (JObj [(js ''product_name'', JStr []),
                            (js ''id'', JStr (js ''8901058851441''))])\<rparr>))
      (js ''8901058851441'') empty_Session initial_HomeState)) = JArr []"
  by (simp add: handleBarcodeSearch_def browser_def ok_def js_def search_failed_def)

text \<open>
  C10. \<^verbatim>\<open>extractHealthRating\<close> returns \<^verbatim>\<open>null\<close> exactly when the text contains no rating
  (the word \<^verbatim>\<open>rating\<close> in any case, colons or white space, a number, a slash and \<^verbatim>\<open>10\<close>,
  with white space allowed around the slash), and it never throws. When it returns a
  value, the score is read from the leftmost rating of the text, which has one number: it
  is the binary64 value of that number, so never \<^verbatim>\<open>NaN\<close> and never negative. The verdict
  is empty when the text has no \<^verbatim>\<open>OVERALL VERDICT\<close> (in any case). Otherwise it is found
  after the first one: one colon and all white space after it, line breaks included, are
  skipped, and the verdict is the rest of the line so reached, trimmed. This is said of
  every text but those in which the colon of the header is followed by nothing but line
  breaks.
\<close>

theorem extractHealthRating_result:
  "(extractHealthRating text = Inr None \<longleftrightarrow> \<not> contains_rating text) \<and>
   extractHealthRating text \<noteq> Inl TypeError \<and>
   (extractHealthRating text = Inr (Some r) \<longrightarrow>
      (\<exists>pre s num post ip fp.
          text = pre @ s \<and> rating_match s num post \<and>
          (\<forall>pre' s' n p. text = pre' @ s' \<and> length pre' < length pre \<longrightarrow> \<not> rating_match s' n p) \<and>
          (\<forall>n p. rating_match s n p \<longrightarrow> n = num) \<and>
          decimal_literal ip fp num \<and>
          score r = binary64 (digits_value (ip @ fp)) (10 ^ length fp)) \<and>
      (score r = Infinity \<or> (\<exists>q. score r = Finite q \<and> 0 \<le> q)) \<and>
      (after_first ''OVERALL VERDICT'' text = None \<longrightarrow> verdict r = []) \<and>
      (\<forall>rest. after_first ''OVERALL VERDICT'' text = Some rest \<and> \<not> colon_then_breaks rest \<longrightarrow>
         verdict r = line_after rest))"
proof (cases "String_match text ratingPattern")
  case None
  then have "extractHealthRating text = Inr None" by (simp add: extractHealthRating_unfold)
  moreover from None have "\<not> contains_rating text" by (simp add: rating_None_iff)
  ultimately show ?thesis by simp
next
  case (Some rm)
  from rating_Some_first [OF Some] obtain pre s num post
    where m: "text = pre @ s" "rating_match s num post" "group rm 1 = Some num"
      and first: "\<forall>pre' s' n p. text = pre' @ s' \<and> length pre' < length pre \<longrightarrow> \<not> rating_match s' n p"
    by blast
  from m(2) obtain ip fp where d: "decimal_literal ip fp num" unfolding rating_match_def by blast
  let ?q = "binary64 (digits_value (ip @ fp)) (10 ^ length fp)"
  from Some m(3) parseFloat_decimal [OF d]
  have e: "extractHealthRating text = Inr (Some \<lparr>score = ?q, verdict = verdict_spec text\<rparr>)"
    by (simp add: extractHealthRating_unfold)
  have c: "contains_rating text" using Some rating_None_iff [of "text"] by simp
  have u: "\<forall>n p. rating_match s n p \<longrightarrow> n = num"
    using rating_match_unique [OF _ m(2)] by blast
  show ?thesis
  proof (intro conjI impI allI)
    show "extractHealthRating text = Inr None \<longleftrightarrow> \<not> contains_rating text" using e c by simp
    show "extractHealthRating text \<noteq> Inl TypeError" using e by simp
  next
    assume "extractHealthRating text = Inr (Some r)"
    with e have r: "score r = ?q" "verdict r = verdict_spec text" by simp_all
    from m(1,2) first u d r(1)
    show "\<exists>pre s num post ip fp.
          text = pre @ s \<and> rating_match s num post \<and>
          (\<forall>pre' s' n p. text = pre' @ s' \<and> length pre' < length pre \<longrightarrow> \<not> rating_match s' n p) \<and>
          (\<forall>n p. rating_match s n p \<longrightarrow> n = num) \<and>
          decimal_literal ip fp num \<and>
          score r = binary64 (digits_value (ip @ fp)) (10 ^ length fp)"
      by blast
    from r(1) binary64_nonneg [of "digits_value (ip @ fp)" "10 ^ length fp"]
    show "score r = Infinity \<or> (\<exists>q. score r = Finite q \<and> 0 \<le> q)" by simp
  next
    assume "extractHealthRating text = Inr (Some r)" and "after_first ''OVERALL VERDICT'' text = None"
    with e show "verdict r = []" by (simp add: verdict_spec_def)
  next
    fix rest
    assume "extractHealthRating text = Inr (Some r)"
      and "after_first ''OVERALL VERDICT'' text = Some rest \<and> \<not> colon_then_breaks rest"
    with e verdict_after_line [of rest] show "verdict r = line_after rest"
      by (simp add: verdict_spec_def)
  qed
qed

text \<open>
  A text with a rating of 7.5 and a verdict on the line of its header, and a text whose
  rating has a number that is not a binary64 value and which has no verdict.
\<close>

theorem extractHealthRating_result_witness:
  "extractHealthRating (js ''Health Rating: 7.5/10'' @ [10] @ js ''OVERALL VERDICT: Good choice'') =
     Inr (Some \<lparr>score = Finite (15 / 2), verdict = js ''Good choice''\<rparr>) \<and>
   contains_rating (js ''Health Rating: 7.5/10'' @ [10] @ js ''OVERALL VERDICT: Good choice'') \<and>
   after_first ''OVERALL VERDICT'' (js ''Health Rating: 7.5/10'' @ [10] @ js ''OVERALL VERDICT: Good choice'')
     = Some (js '': Good choice'') \<and>
   \<not> colon_then_breaks (js '': Good choice'') \<and>
   line_after (js '': Good choice'') = js ''Good choice'' \<and>
   extractHealthRating (js ''rating 9007199254740993 / 10'') =
     Inr (Some \<lparr>score = Finite 9007199254740992, verdict = []\<rparr>) \<and>
   contains_rating (js ''rating 9007199254740993 / 10'') \<and>
   after_first ''OVERALL VERDICT'' (js ''rating 9007199254740993 / 10'') = None"
proof -
  have e: "extractHealthRating (js ''Health Rating: 7.5/10'' @ [10] @ js ''OVERALL VERDICT: Good choice'') =
     Inr (Some \<lparr>score = Finite (15 / 2), verdict = js ''Good choice''\<rparr>)"
    by (simp add: extractHealthRating_def number_eval regex_eval)
  have a: "after_first ''OVERALL VERDICT'' (js ''Health Rating: 7.5/10'' @ [10] @ js ''OVERALL VERDICT: Good choice'')
     = Some (js '': Good choice'')"
    by (simp add: js_def ci_prefix_def ci_equal_def Canonicalize_def)
  have b: "\<not> colon_then_breaks (js '': Good choice'')"
    by (simp add: js_def colon_then_breaks_def)
  have e': "extractHealthRating (js ''rating 9007199254740993 / 10'') =
     Inr (Some \<lparr>score = Finite 9007199254740992, verdict = []\<rparr>)"
    by (simp add: extractHealthRating_def number_eval regex_eval)
  have a': "after_first ''OVERALL VERDICT'' (js ''rating 9007199254740993 / 10'') = None"
    by (simp add: js_def ci_prefix_def ci_equal_def Canonicalize_def)
  from extractHealthRating_result [of "js ''Health Rating: 7.5/10'' @ [10] @ js ''OVERALL VERDICT: Good choice''"
      "\<lparr>score = Finite (15 / 2), verdict = js ''Good choice''\<rparr>"]
    extractHealthRating_result [of "js ''rating 9007199254740993 / 10''"
      "\<lparr>score = Finite 9007199254740992, verdict = []\<rparr>"] e a b e' a'
  show ?thesis by simp
qed

text \<open>
  The claim as first stated fails when the line of the header ends after the colon: the
  text that follows \<^verbatim>\<open>OVERALL VERDICT:\<close> on its line is empty, and the verdict is taken
  from the next line.
\<close>

theorem extractHealthRating_next_line_counterexample:
  "extractHealthRating (js ''Rating: 7/10'' @ [10] @ js ''OVERALL VERDICT:'' @ [10] @ js ''Good'') =
     Inr (Some \<lparr>score = Finite 7, verdict = js ''Good''\<rparr>) \<and>
   verdict_as_claimed (js ''Rating: 7/10'' @ [10] @ js ''OVERALL VERDICT:'' @ [10] @ js ''Good'') = [] \<and>
   js ''Good'' \<noteq> []"
  by (simp add: extractHealthRating_def number_eval verdict_as_claimed_def regex_eval)

end
